theory Spec2Isabelle
  imports Main "HOL-Library.Word"
begin

section \<open>The Acceptor of interprocess: a named-pipe accept loop\<close>

text \<open>
  The development embeds \<^verbatim>\<open>src/interprocess/acceptor.cpp\<close>. The Acceptor talks to the
  Win32 kernel and to three user callbacks. Both are outside the source, so what they
  answer is an input of the model (the environment), and what the Acceptor asks of them
  is recorded, in order, in a trace of actions.
\<close>

subsection \<open>Platform values\<close>

type_synonym DWORD = "32 word"

text \<open>
  A handle is \<^verbatim>\<open>NULL\<close>, \<^verbatim>\<open>INVALID_HANDLE_VALUE\<close> or names a kernel object. Objects are
  numbered in the order of their creation, so two creations never give the same handle.
\<close>

datatype HANDLE = NULL | INVALID_HANDLE_VALUE | Handle nat

text \<open>The constants of \<^verbatim>\<open>windows.h\<close> the source switches on, with their Win32 values.\<close>

definition WAIT_OBJECT_0 :: DWORD where
  "WAIT_OBJECT_0 = 0"

definition WAIT_IO_COMPLETION :: DWORD where
  "WAIT_IO_COMPLETION = 192"

definition ERROR_IO_PENDING :: DWORD where
  "ERROR_IO_PENDING = 997"

definition ERROR_PIPE_CONNECTED :: DWORD where
  "ERROR_PIPE_CONNECTED = 535"

text \<open>
  \<^verbatim>\<open>ConnectionExcepton\<close> carries its message. \<^verbatim>\<open>catch (...)\<close> also catches whatever a
  user callback throws; such an exception is \<open>CallbackException\<close>.
\<close>

datatype exn = ConnectionExcepton string | CallbackException nat

text \<open>A user callback either returns or throws.\<close>

datatype cb_result = Returns | Throws exn

text \<open>
  The answer of the kernel to one call: whether the call succeeded (a non-zero
  \<^verbatim>\<open>BOOL\<close>, a valid handle) and what \<^verbatim>\<open>GetLastError()\<close> returns after it.
\<close>

record os_reply =
  success :: bool
  gle :: DWORD

text \<open>The answer to \<^verbatim>\<open>WaitForMultipleObjectsEx\<close>: its return value and the last error.\<close>

record wait_reply =
  wait_ret :: DWORD
  wait_gle :: DWORD

subsection \<open>\<^verbatim>\<open>std::to_string\<close> of an unsigned number\<close>

definition digit :: "nat \<Rightarrow> char" where
  "digit d = ''0123456789'' ! d"

function to_string :: "nat \<Rightarrow> string" where
  "to_string n = (if n < 10 then [digit n] else to_string (n div 10) @ [digit (n mod 10)])"
  by pat_completeness auto
termination
  by (relation "measure id") auto

declare to_string.simps [simp del]

subsection \<open>Actions\<close>

text \<open>
  Every call the Acceptor makes, with its arguments and its result, in the order the
  calls are made.
\<close>

datatype action =
    A_CreateEvent bool bool HANDLE
  | A_CloseHandle HANDLE
  | A_SetEvent HANDLE bool
  | A_DisconnectNamedPipe HANDLE
  | A_CreateNamedPipe string HANDLE
  | A_ConnectNamedPipe HANDLE HANDLE bool
  | A_GetOverlappedResult HANDLE bool
  | A_WaitForMultipleObjectsEx "HANDLE list" DWORD
  | A_new_connection_callback HANDLE HANDLE cb_result
  | A_async_io_callback cb_result
  | A_exception_callback "exn option" cb_result
  | A_join

subsection \<open>The state\<close>

text \<open>The locals of \<^verbatim>\<open>LinstenInThread\<close> that live across loop iterations.\<close>

record locals =
  conn_event :: HANDLE
  write_event :: HANDLE
  events :: "HANDLE list"
  pedding :: bool

text \<open>
  \<^verbatim>\<open>listen_thread_\<close>: no thread, a thread blocked in the wait of the loop, or a thread
  that has left \<^verbatim>\<open>LinstenInThread\<close> and was not joined yet.
\<close>

datatype thread = No_thread | Waiting locals | Finished

text \<open>
  The members of the class, then what the kernel holds for it: whether the auto-reset
  event \<^verbatim>\<open>close_event_\<close> is signaled, the number of the next object, and the trace.
  A callback member is \<open>True\<close> when the \<^verbatim>\<open>std::function\<close> holds a callable.
\<close>

record acceptor =
  pipe_name :: string
  next_pipe :: HANDLE
  close_event :: HANDLE
  hEvent :: HANDLE
  listen_thread :: thread
  new_connection_callback :: bool
  exception_callback :: bool
  async_io_callback :: bool
  stop_signaled :: bool
  fresh :: nat
  trace :: "action list"

definition emit :: "action \<Rightarrow> acceptor \<Rightarrow> acceptor" where
  "emit x a = a\<lparr>trace := trace a @ [x]\<rparr>"

subsection \<open>Kernel calls\<close>

definition CreateEvent :: "bool \<Rightarrow> bool \<Rightarrow> os_reply \<Rightarrow> acceptor \<Rightarrow> HANDLE \<times> acceptor" where
  "CreateEvent bManualReset bInitialState r a =
     (if success r
      then (Handle (fresh a),
            emit (A_CreateEvent bManualReset bInitialState (Handle (fresh a)))
              (a\<lparr>fresh := Suc (fresh a)\<rparr>))
      else (NULL, emit (A_CreateEvent bManualReset bInitialState NULL) a))"

definition CloseHandle :: "HANDLE \<Rightarrow> acceptor \<Rightarrow> acceptor" where
  "CloseHandle h a = emit (A_CloseHandle h) a"

text \<open>Only the state of \<^verbatim>\<open>close_event_\<close> is followed: a successful \<^verbatim>\<open>SetEvent\<close> signals it.\<close>

definition SetEvent :: "HANDLE \<Rightarrow> os_reply \<Rightarrow> acceptor \<Rightarrow> bool \<times> acceptor" where
  "SetEvent h r a =
     (success r,
      emit (A_SetEvent h (success r))
        (a\<lparr>stop_signaled := (stop_signaled a \<or> (success r \<and> h = close_event a))\<rparr>))"

definition DisconnectNamedPipe :: "HANDLE \<Rightarrow> acceptor \<Rightarrow> acceptor" where
  "DisconnectNamedPipe h a = emit (A_DisconnectNamedPipe h) a"

definition CreateNamedPipe :: "string \<Rightarrow> os_reply \<Rightarrow> acceptor \<Rightarrow> HANDLE \<times> acceptor" where
  "CreateNamedPipe name r a =
     (if success r
      then (Handle (fresh a),
            emit (A_CreateNamedPipe name (Handle (fresh a))) (a\<lparr>fresh := Suc (fresh a)\<rparr>))
      else (INVALID_HANDLE_VALUE, emit (A_CreateNamedPipe name INVALID_HANDLE_VALUE) a))"

definition ConnectNamedPipe :: "HANDLE \<Rightarrow> HANDLE \<Rightarrow> os_reply \<Rightarrow> acceptor \<Rightarrow> bool \<times> acceptor" where
  "ConnectNamedPipe p ev r a = (success r, emit (A_ConnectNamedPipe p ev (success r)) a)"

definition GetOverlappedResult :: "HANDLE \<Rightarrow> os_reply \<Rightarrow> acceptor \<Rightarrow> bool \<times> acceptor" where
  "GetOverlappedResult p r a = (success r, emit (A_GetOverlappedResult p (success r)) a)"

text \<open>
  The wait returns what the environment says. The third handle waited on is the
  auto-reset \<^verbatim>\<open>close_event_\<close>: a wait that it satisfies resets it.
\<close>

definition WaitForMultipleObjectsEx :: "HANDLE list \<Rightarrow> wait_reply \<Rightarrow> acceptor \<Rightarrow> DWORD \<times> acceptor" where
  "WaitForMultipleObjectsEx evs r a =
     (wait_ret r,
      emit (A_WaitForMultipleObjectsEx evs (wait_ret r))
        (a\<lparr>stop_signaled := (if wait_ret r = WAIT_OBJECT_0 + 2 then False else stop_signaled a)\<rparr>))"

subsection \<open>\<^verbatim>\<open>Acceptor::CreateConnectInstance\<close>\<close>

text \<open>The kernel's answers to the calls of one \<^verbatim>\<open>CreateConnectInstance\<close>.\<close>

record cci_env =
  create_pipe :: os_reply
  connect_pipe :: os_reply
  set_event :: os_reply

text \<open>
  The exception every failure throws: \<^verbatim>\<open>msg.append(std::to_string(GetLastError()))\<close>,
  then \<^verbatim>\<open>ConnectionExcepton(msg)\<close>.
\<close>

definition failure :: "string \<Rightarrow> DWORD \<Rightarrow> exn" where
  "failure msg code = ConnectionExcepton (msg @ to_string (unat code))"

text \<open>
  \<^verbatim>\<open>std::string::c_str\<close> as a callee reads it: the characters before the first NUL.
\<close>

definition c_str :: "string \<Rightarrow> string" where
  "c_str s = takeWhile (\<lambda>c. c \<noteq> CHR 0x00) s"

text \<open>
  \<open>Inl\<close> is the exception thrown, \<open>Inr\<close> the value returned. Each \<^verbatim>\<open>GetLastError()\<close> of
  the source reads the last error left by the kernel call before it: that of
  \<^verbatim>\<open>ConnectNamedPipe\<close>, or of \<^verbatim>\<open>SetEvent\<close> where the \<^verbatim>\<open>case\<close> falls through.
\<close>

definition CreateConnectInstance :: "cci_env \<Rightarrow> acceptor \<Rightarrow> (exn + bool) \<times> acceptor" where
  "CreateConnectInstance e a0 =
     (let (p, a1) = CreateNamedPipe (c_str (pipe_name a0)) (create_pipe e) a0;
          a2 = a1\<lparr>next_pipe := p\<rparr>
      in if next_pipe a2 = INVALID_HANDLE_VALUE
         then (Inl (failure ''CreateNamedPipe failed GLE = '' (gle (create_pipe e))), a2)
         else
           let (connected, a3) = ConnectNamedPipe (next_pipe a2) (hEvent a2) (connect_pipe e) a2
           in if connected
              then (Inl (failure ''ConnectNamedPipe failed GLE = '' (gle (connect_pipe e))), a3)
              else if gle (connect_pipe e) = ERROR_IO_PENDING
              then (Inr True, a3)
              else if gle (connect_pipe e) = ERROR_PIPE_CONNECTED
              then
                (let (signaled, a4) = SetEvent (hEvent a3) (set_event e) a3
                 in if signaled then (Inr False, a4)
                    else (Inl (failure ''ConnectNamedPipe failed GLE = '' (gle (set_event e))), a4))
              else (Inl (failure ''ConnectNamedPipe failed GLE = '' (gle (connect_pipe e))), a3))"

subsection \<open>The loop of \<^verbatim>\<open>Acceptor::LinstenInThread\<close>\<close>

text \<open>
  What one iteration meets: the result of the wait, of \<^verbatim>\<open>GetOverlappedResult\<close>, what
  the two callbacks do if they are called, and the answers to the next
  \<^verbatim>\<open>CreateConnectInstance\<close>. An answer to a call the iteration does not make is not read.
\<close>

record iter_env =
  wait :: wait_reply
  overlapped :: os_reply
  on_new_connection :: cb_result
  on_async_io :: cb_result
  rearm :: cci_env

text \<open>How one iteration ends: \<^verbatim>\<open>break\<close> (with the new \<^verbatim>\<open>pedding\<close>), \<^verbatim>\<open>return\<close>, or a throw.\<close>

datatype step = Continue bool | Return | Throw exn

text \<open>\<^verbatim>\<open>if (new_connection_callback_) { new_connection_callback_(next_pipe_, write_event); }\<close>\<close>

definition call_new_connection_callback ::
    "HANDLE \<Rightarrow> HANDLE \<Rightarrow> cb_result \<Rightarrow> acceptor \<Rightarrow> cb_result \<times> acceptor" where
  "call_new_connection_callback p w r a =
     (if new_connection_callback a
      then (r, emit (A_new_connection_callback p w r) a)
      else (Returns, a))"

text \<open>\<^verbatim>\<open>if (async_io_callback_) { async_io_callback_(); }\<close>\<close>

definition call_async_io_callback :: "cb_result \<Rightarrow> acceptor \<Rightarrow> cb_result \<times> acceptor" where
  "call_async_io_callback r a =
     (if async_io_callback a then (r, emit (A_async_io_callback r) a) else (Returns, a))"

text \<open>\<^verbatim>\<open>case WAIT_OBJECT_0\<close>\<close>

definition connect_ready :: "locals \<Rightarrow> iter_env \<Rightarrow> acceptor \<Rightarrow> step \<times> acceptor" where
  "connect_ready l it a0 =
     (let (success, a1) =
            (if pedding l then GetOverlappedResult (next_pipe a0) (overlapped it) a0
             else (True, a0))
      in if \<not> success
         then (Throw (failure ''ConnectNamedPipe failed GLE = '' (gle (overlapped it))), a1)
         else
           (case call_new_connection_callback (next_pipe a1) (write_event l)
                   (on_new_connection it) a1 of
              (Throws x, a2) \<Rightarrow> (Throw x, a2)
            | (Returns, a2) \<Rightarrow>
                (case CreateConnectInstance (rearm it) a2 of
                   (Inl x, a3) \<Rightarrow> (Throw x, a3)
                 | (Inr p, a3) \<Rightarrow> (Continue p, a3))))"

text \<open>One pass through the body of \<^verbatim>\<open>for (;;)\<close>: the wait and the \<^verbatim>\<open>switch\<close>.\<close>

definition loop_step :: "locals \<Rightarrow> iter_env \<Rightarrow> acceptor \<Rightarrow> step \<times> acceptor" where
  "loop_step l it a0 =
     (let (w, a1) = WaitForMultipleObjectsEx (events l) (wait it) a0
      in if w = WAIT_OBJECT_0 then connect_ready l it a1
         else if w = WAIT_OBJECT_0 + 1 then
           (case call_async_io_callback (on_async_io it) a1 of
              (Throws x, a2) \<Rightarrow> (Throw x, a2)
            | (Returns, a2) \<Rightarrow> (Continue (pedding l), a2))
         else if w = WAIT_OBJECT_0 + 2 then (Return, a1)
         else if w = WAIT_IO_COMPLETION then (Continue (pedding l), a1)
         else (Throw (failure ''Unexpected error GLE = '' (wait_gle (wait it))), a1))"

text \<open>
  How the loop ends: by \<^verbatim>\<open>return\<close>, by a throw, or not at all: when the environment has
  no further wake-up, the thread stays in the wait (which has no timeout), with its locals.
\<close>

datatype loop_exit = Stopped | Raised exn | Blocked locals

fun loop :: "locals \<Rightarrow> iter_env list \<Rightarrow> acceptor \<Rightarrow> loop_exit \<times> acceptor" where
  "loop l [] a = (Blocked l, a)"
| "loop l (it # its) a =
     (case loop_step l it a of
        (Continue p, a') \<Rightarrow> loop (l\<lparr>pedding := p\<rparr>) its a'
      | (Return, a') \<Rightarrow> (Stopped, a')
      | (Throw x, a') \<Rightarrow> (Raised x, a'))"

subsection \<open>\<^verbatim>\<open>Acceptor::LinstenInThread\<close>\<close>

text \<open>
  Modelled from the spec: \<^verbatim>\<open>ScopeGuard\<close>, whose header is not among the sources. It
  wraps a release action and runs it when its scope is left, unless it was dismissed.
\<close>

definition ScopeGuard :: "bool \<Rightarrow> (acceptor \<Rightarrow> acceptor) \<Rightarrow> acceptor \<Rightarrow> acceptor" where
  "ScopeGuard dismissed release a = (if dismissed then a else release a)"

text \<open>
  Leaving the \<^verbatim>\<open>try\<close> block from the loop or from the first \<^verbatim>\<open>CreateConnectInstance\<close>:
  the two guards, neither dismissed, run in the reverse order of their construction. A
  thread that stays in the wait does not leave.
\<close>

definition leave_scope :: "locals \<Rightarrow> loop_exit \<times> acceptor \<Rightarrow> loop_exit \<times> acceptor" where
  "leave_scope l x =
     (case x of
        (Blocked l', a) \<Rightarrow> (Blocked l', a)
      | (r, a) \<Rightarrow>
          (r, ScopeGuard False (CloseHandle (conn_event l))
                (ScopeGuard False (CloseHandle (write_event l)) a)))"

text \<open>\<^verbatim>\<open>bool pedding = CreateConnectInstance();\<close> and the loop after it.\<close>

definition connect_and_loop ::
    "locals \<Rightarrow> cci_env \<Rightarrow> iter_env list \<Rightarrow> acceptor \<Rightarrow> loop_exit \<times> acceptor" where
  "connect_and_loop l e its a =
     (case CreateConnectInstance e a of
        (Inl x, a') \<Rightarrow> (Raised x, a')
      | (Inr p, a') \<Rightarrow> loop (l\<lparr>pedding := p\<rparr>) its a')"

record thread_env =
  create_conn_event :: os_reply
  create_write_event :: os_reply
  first_connect :: cci_env
  iterations :: "iter_env list"
  on_exception :: cb_result

text \<open>The \<^verbatim>\<open>try\<close> block.\<close>

definition try_block :: "thread_env \<Rightarrow> acceptor \<Rightarrow> loop_exit \<times> acceptor" where
  "try_block env a0 =
     (let (conn_event, a1) = CreateEvent True True (create_conn_event env) a0
      in if conn_event = NULL
         then (Raised (failure ''CreateEvent (connect event) failed GLE = ''
                         (gle (create_conn_event env))),
               ScopeGuard True (CloseHandle conn_event) a1)
         else
           let (write_event, a2) = CreateEvent False False (create_write_event env) a1
           in if write_event = NULL
              then (Raised (failure ''CreateEvent (write event) failed GLE = ''
                              (gle (create_write_event env))),
                    ScopeGuard False (CloseHandle conn_event)
                      (ScopeGuard True (CloseHandle write_event) a2))
              else
                let l = \<lparr>conn_event = conn_event, write_event = write_event,
                         events = [conn_event, write_event, close_event a2],
                         pedding = False\<rparr>;
                    a3 = a2\<lparr>hEvent := conn_event\<rparr>
                in leave_scope l (connect_and_loop l (first_connect env) (iterations env) a3))"

text \<open>
  How the thread function ends: it returns, an exception leaves it (thrown by the
  exception callback, outside the \<^verbatim>\<open>try\<close>), or the thread stays in the wait.
\<close>

datatype thread_exit = Returned | Terminated exn | Suspended locals

text \<open>
  After the \<^verbatim>\<open>try\<close>: \<^verbatim>\<open>return\<close> inside the block has left the function; a caught
  exception is in \<^verbatim>\<open>eptr\<close> and goes to the exception callback, if there is one.
\<close>

definition after_try :: "cb_result \<Rightarrow> loop_exit \<times> acceptor \<Rightarrow> thread_exit \<times> acceptor" where
  "after_try r x =
     (case x of
        (Blocked l, a) \<Rightarrow> (Suspended l, a)
      | (Stopped, a) \<Rightarrow> (Returned, a)
      | (Raised e, a) \<Rightarrow>
          (if exception_callback a
           then ((case r of Returns \<Rightarrow> Returned | Throws x \<Rightarrow> Terminated x),
                 emit (A_exception_callback (Some e) r) a)
           else (Returned, a)))"

definition LinstenInThread :: "thread_env \<Rightarrow> acceptor \<Rightarrow> thread_exit \<times> acceptor" where
  "LinstenInThread env a = after_try (on_exception env) (try_block env a)"

subsection \<open>Construction, \<^verbatim>\<open>Listen\<close>, \<^verbatim>\<open>Stop\<close>, destruction\<close>

definition backslash :: char where
  "backslash = CHR 0x5C"

definition Acceptor :: "string \<Rightarrow> os_reply \<Rightarrow> acceptor" where
  "Acceptor endpoint r =
     (let a0 = \<lparr>pipe_name = [backslash, backslash, CHR ''.'', backslash] @ ''pipe''
                              @ [backslash] @ endpoint,
                  next_pipe = NULL, close_event = NULL, hEvent = NULL,
                  listen_thread = No_thread, new_connection_callback = False,
                  exception_callback = False, async_io_callback = False,
                  stop_signaled = False, fresh = 0, trace = []\<rparr>;
          (h, a1) = CreateEvent False False r a0
      in a1\<lparr>close_event := h\<rparr>)"

definition SetNewConnectionCallback :: "bool \<Rightarrow> acceptor \<Rightarrow> acceptor" where
  "SetNewConnectionCallback cb a = a\<lparr>new_connection_callback := cb\<rparr>"

definition SetExceptionCallback :: "bool \<Rightarrow> acceptor \<Rightarrow> acceptor" where
  "SetExceptionCallback cb a = a\<lparr>exception_callback := cb\<rparr>"

definition MoveIOFunctionToAlertableThread :: "bool \<Rightarrow> acceptor \<Rightarrow> acceptor" where
  "MoveIOFunctionToAlertableThread cb a = a\<lparr>async_io_callback := cb\<rparr>"

text \<open>
  The calls of the owner and the loop thread are put in one order: the thread runs in
  \<open>Listen\<close> up to the wait in which the owner's next call finds it, and in the
  \<^verbatim>\<open>join\<close> of \<open>Stop\<close> from there to its end. \<open>None\<close> is a call that does not return: the
  process is terminated (\<^verbatim>\<open>Listen\<close> over a joinable thread, an exception leaving the
  thread function) or the \<^verbatim>\<open>join\<close> waits for ever.
\<close>

definition Listen :: "thread_env \<Rightarrow> acceptor \<Rightarrow> acceptor option" where
  "Listen env a =
     (if listen_thread a \<noteq> No_thread then None
      else
        (case LinstenInThread env a of
           (Suspended l, a') \<Rightarrow> Some (a'\<lparr>listen_thread := Waiting l\<rparr>)
         | (Returned, a') \<Rightarrow> Some (a'\<lparr>listen_thread := Finished\<rparr>)
         | (Terminated x, a') \<Rightarrow> None))"

text \<open>
  What \<open>Stop\<close> meets: the answer to its \<^verbatim>\<open>SetEvent\<close>, and for the thread it joins the
  wake-ups that are left and what the exception callback does.
\<close>

record stop_env =
  set_close_event :: os_reply
  wakeups :: "iter_env list"
  on_exception_joined :: cb_result

definition join :: "stop_env \<Rightarrow> acceptor \<Rightarrow> acceptor option" where
  "join env a =
     (case listen_thread a of
        No_thread \<Rightarrow> None
      | Finished \<Rightarrow> Some (emit A_join (a\<lparr>listen_thread := No_thread\<rparr>))
      | Waiting l \<Rightarrow>
          (case after_try (on_exception_joined env) (leave_scope l (loop l (wakeups env) a)) of
             (Returned, a') \<Rightarrow> Some (emit A_join (a'\<lparr>listen_thread := No_thread\<rparr>))
           | (Terminated x, a') \<Rightarrow> None
           | (Suspended l', a') \<Rightarrow> None))"

definition Stop :: "stop_env \<Rightarrow> acceptor \<Rightarrow> acceptor option" where
  "Stop env a0 =
     (let (signaled, a1) = SetEvent (close_event a0) (set_close_event env) a0;
          a2 = DisconnectNamedPipe (next_pipe a1) a1
      in if listen_thread a2 \<noteq> No_thread then join env a2 else Some a2)"

text \<open>\<^verbatim>\<open>Acceptor::~Acceptor\<close>\<close>

definition destroy :: "stop_env \<Rightarrow> acceptor \<Rightarrow> acceptor option" where
  "destroy env a0 =
     (case Stop env a0 of
        None \<Rightarrow> None
      | Some a1 \<Rightarrow> Some (CloseHandle (close_event a1) (CloseHandle (next_pipe a1) a1)))"

subsection \<open>The life of an Acceptor\<close>

text \<open>
  The calls the owner can make between construction and destruction, and a whole life:
  the constructor, a list of calls, the destructor. \<open>None\<close> when a call does not return.
\<close>

datatype call =
    Call_Listen thread_env
  | Call_Stop stop_env
  | Call_SetNewConnectionCallback bool
  | Call_SetExceptionCallback bool
  | Call_MoveIOFunctionToAlertableThread bool

fun perform :: "call \<Rightarrow> acceptor \<Rightarrow> acceptor option" where
  "perform (Call_Listen env) a = Listen env a"
| "perform (Call_Stop env) a = Stop env a"
| "perform (Call_SetNewConnectionCallback cb) a = Some (SetNewConnectionCallback cb a)"
| "perform (Call_SetExceptionCallback cb) a = Some (SetExceptionCallback cb a)"
| "perform (Call_MoveIOFunctionToAlertableThread cb) a =
     Some (MoveIOFunctionToAlertableThread cb a)"

fun calls :: "call list \<Rightarrow> acceptor \<Rightarrow> acceptor option" where
  "calls [] a = Some a"
| "calls (c # cs) a = (case perform c a of None \<Rightarrow> None | Some a' \<Rightarrow> calls cs a')"

definition lifetime :: "string \<Rightarrow> os_reply \<Rightarrow> call list \<Rightarrow> stop_env \<Rightarrow> acceptor option" where
  "lifetime endpoint r cs d =
     (case calls cs (Acceptor endpoint r) of None \<Rightarrow> None | Some a \<Rightarrow> destroy d a)"

subsection \<open>Vocabulary of the properties\<close>

text \<open>The actions performed between two states of one run.\<close>

definition performed :: "acceptor \<Rightarrow> acceptor \<Rightarrow> action list" where
  "performed a a' = drop (length (trace a)) (trace a')"

text \<open>The arguments of the calls of the exception callback, in order.\<close>

definition exception_calls :: "action list \<Rightarrow> exn option list" where
  "exception_calls tr =
     concat (map (\<lambda>x. case x of A_exception_callback e r \<Rightarrow> [e] | _ \<Rightarrow> []) tr)"

text \<open>
  What the loop and \<^verbatim>\<open>CreateConnectInstance\<close> can perform: no action on another write
  event, wait set, pipe name or connect event than those of the run, no callback that
  is not registered, and no other kind of action.
\<close>

definition loop_action :: "locals \<Rightarrow> acceptor \<Rightarrow> action \<Rightarrow> bool" where
  "loop_action l a x =
     (case x of
        A_WaitForMultipleObjectsEx evs r \<Rightarrow> evs = events l
      | A_GetOverlappedResult p b \<Rightarrow> True
      | A_new_connection_callback p w r \<Rightarrow> new_connection_callback a \<and> w = write_event l
      | A_async_io_callback r \<Rightarrow> async_io_callback a
      | A_CreateNamedPipe n h \<Rightarrow> n = c_str (pipe_name a)
      | A_ConnectNamedPipe p ev b \<Rightarrow> ev = hEvent a
      | A_SetEvent h b \<Rightarrow> h = hEvent a
      | _ \<Rightarrow> False)"

text \<open>
  \<open>advanced a xs a'\<close>: from \<open>a\<close> to \<open>a'\<close> the actions \<open>xs\<close> were performed and nothing
  changed but the endpoint, the state of the stop event and the number of objects.
\<close>

definition advanced :: "acceptor \<Rightarrow> action list \<Rightarrow> acceptor \<Rightarrow> bool" where
  "advanced a xs a' =
     (pipe_name a' = pipe_name a \<and> close_event a' = close_event a \<and> hEvent a' = hEvent a \<and>
      listen_thread a' = listen_thread a \<and>
      new_connection_callback a' = new_connection_callback a \<and>
      exception_callback a' = exception_callback a \<and>
      async_io_callback a' = async_io_callback a \<and>
      trace a' = trace a @ xs \<and> fresh a \<le> fresh a')"

text \<open>
  The state and the locals of \<^verbatim>\<open>LinstenInThread\<close> once its two events are created and the
  connect event is bound to \<^verbatim>\<open>connect_overlap_\<close>.
\<close>

definition started :: "acceptor \<Rightarrow> acceptor" where
  "started a = a\<lparr>fresh := Suc (Suc (fresh a)),
                 trace := trace a @ [A_CreateEvent True True (Handle (fresh a)),
                                     A_CreateEvent False False (Handle (Suc (fresh a)))],
                 hEvent := Handle (fresh a)\<rparr>"

definition first_locals :: "acceptor \<Rightarrow> locals" where
  "first_locals a = \<lparr>conn_event = Handle (fresh a), write_event = Handle (Suc (fresh a)),
                     events = [Handle (fresh a), Handle (Suc (fresh a)), close_event a],
                     pedding = False\<rparr>"

text \<open>The handles returned by the \<^verbatim>\<open>CreateEvent\<close> calls, in order.\<close>

definition created_events :: "action list \<Rightarrow> HANDLE list" where
  "created_events tr = concat (map (\<lambda>x. case x of A_CreateEvent m i h \<Rightarrow> [h] | _ \<Rightarrow> []) tr)"

text \<open>
  The creations of endpoints and the calls of the new-connection callback, in order.
\<close>

definition accept_view :: "action list \<Rightarrow> action list" where
  "accept_view tr =
     filter (\<lambda>x. case x of A_CreateNamedPipe n h \<Rightarrow> True
                        | A_new_connection_callback p w r \<Rightarrow> True
                        | _ \<Rightarrow> False) tr"


text \<open>
  The state of an accepting iteration when it reaches \<^verbatim>\<open>CreateConnectInstance\<close>: the wait
  has returned \<^verbatim>\<open>WAIT_OBJECT_0\<close>, a pending connect was confirmed, and the callback, if
  registered, was called.
\<close>

definition delivered :: "locals \<Rightarrow> iter_env \<Rightarrow> acceptor \<Rightarrow> acceptor" where
  "delivered l it a =
     a\<lparr>trace := trace a @
          A_WaitForMultipleObjectsEx (events l) WAIT_OBJECT_0 #
          (if pedding l then [A_GetOverlappedResult (next_pipe a) True] else []) @
          (if new_connection_callback a
           then [A_new_connection_callback (next_pipe a) (write_event l) (on_new_connection it)]
           else [])\<rparr>"

text \<open>
  The handles passed to \<^verbatim>\<open>CloseHandle\<close>, the handles returned by \<^verbatim>\<open>CreateNamedPipe\<close>, and
  the endpoints passed to a new-connection callback that returned, each in order.
\<close>

definition closed :: "action list \<Rightarrow> HANDLE list" where
  "closed tr = concat (map (\<lambda>x. case x of A_CloseHandle h \<Rightarrow> [h] | _ \<Rightarrow> []) tr)"

definition created_pipes :: "action list \<Rightarrow> HANDLE list" where
  "created_pipes tr = concat (map (\<lambda>x. case x of A_CreateNamedPipe n h \<Rightarrow> [h] | _ \<Rightarrow> []) tr)"

definition handed_over :: "action list \<Rightarrow> HANDLE list" where
  "handed_over tr =
     concat (map (\<lambda>x. case x of A_new_connection_callback p w Returns \<Rightarrow> [p] | _ \<Rightarrow> []) tr)"

text \<open>An action that creates, closes and hands over nothing.\<close>

definition neutral :: "action \<Rightarrow> bool" where
  "neutral x = (created_events [x] = [] \<and> created_pipes [x] = [] \<and> closed [x] = [] \<and>
                handed_over [x] = [])"

text \<open>
  The invariant of the handles, for a loop thread whose open events are \<open>evs\<close>: objects are
  numbered below \<open>fresh\<close>; no object is both an event and a pipe; what was closed is an
  event, was closed once, and is neither an open event of the thread nor the stop event;
  every event is closed, open in the thread, or the stop event; \<^verbatim>\<open>next_pipe_\<close>, if it is an
  object, is a pipe; an endpoint that was handed over is a pipe and no longer
  \<^verbatim>\<open>next_pipe_\<close>.
\<close>

definition owned :: "HANDLE set \<Rightarrow> acceptor \<Rightarrow> bool" where
  "owned evs a =
     ((\<forall>n. Handle n \<in> set (created_events (trace a)) \<union> set (created_pipes (trace a))
              \<longrightarrow> n < fresh a) \<and>
      (\<forall>n. Handle n \<in> set (created_events (trace a))
              \<longrightarrow> Handle n \<notin> set (created_pipes (trace a))) \<and>
      distinct (closed (trace a)) \<and>
      NULL \<notin> set (closed (trace a)) \<and> INVALID_HANDLE_VALUE \<notin> set (closed (trace a)) \<and>
      set (closed (trace a)) \<subseteq> set (created_events (trace a)) \<and>
      set (closed (trace a)) \<inter> evs = {} \<and>
      close_event a \<notin> set (closed (trace a)) \<and>
      (\<forall>n. Handle n \<in> set (created_events (trace a))
              \<longrightarrow> Handle n \<in> set (closed (trace a)) \<or> Handle n \<in> evs \<or>
                  Handle n = close_event a) \<and>
      (\<forall>n. next_pipe a = Handle n \<longrightarrow> Handle n \<in> set (created_pipes (trace a))) \<and>
      (\<forall>n. Handle n \<in> set (handed_over (trace a))
              \<longrightarrow> Handle n \<in> set (created_pipes (trace a)) \<and> Handle n \<noteq> next_pipe a) \<and>
      (\<forall>n. close_event a = Handle n \<longrightarrow> Handle n \<in> set (created_events (trace a))) \<and>
      evs \<subseteq> set (created_events (trace a)) \<and> NULL \<notin> evs \<and> INVALID_HANDLE_VALUE \<notin> evs \<and>
      close_event a \<notin> evs)"

text \<open>The invariant between the calls of the owner.\<close>

definition thread_events :: "thread \<Rightarrow> HANDLE set" where
  "thread_events t = (case t of Waiting l \<Rightarrow> {conn_event l, write_event l} | _ \<Rightarrow> {})"

definition well_owned :: "acceptor \<Rightarrow> bool" where
  "well_owned a =
     (owned (thread_events (listen_thread a)) a \<and>
      (\<forall>l. listen_thread a = Waiting l \<longrightarrow> conn_event l \<noteq> write_event l))"

text \<open>
  The state \<open>s\<close> of a run that started in \<open>a\<close> once its two guards have run: the write event
  is closed, then the connect event.
\<close>

definition unwound :: "acceptor \<Rightarrow> acceptor \<Rightarrow> acceptor" where
  "unwound a s = CloseHandle (Handle (fresh a)) (CloseHandle (Handle (Suc (fresh a))) s)"

subsection \<open>Example environments\<close>

definition ok :: os_reply where
  "ok = \<lparr>success = True, gle = 0\<rparr>"

definition err :: "DWORD \<Rightarrow> os_reply" where
  "err c = \<lparr>success = False, gle = c\<rparr>"

text \<open>The usual start of a connect: the pipe is created and the connect is pending.\<close>

definition connect_pending :: cci_env where
  "connect_pending = \<lparr>create_pipe = ok, connect_pipe = err ERROR_IO_PENDING, set_event = ok\<rparr>"

text \<open>An iteration in which the wait returns \<open>r\<close> and every call succeeds.\<close>

definition wake :: "DWORD \<Rightarrow> iter_env" where
  "wake r = \<lparr>wait = \<lparr>wait_ret = r, wait_gle = 0\<rparr>, overlapped = ok,
             on_new_connection = Returns, on_async_io = Returns, rearm = connect_pending\<rparr>"

definition run_of :: "iter_env list \<Rightarrow> thread_env" where
  "run_of its = \<lparr>create_conn_event = ok, create_write_event = ok,
                 first_connect = connect_pending, iterations = its, on_exception = Returns\<rparr>"

text \<open>An Acceptor on \<^verbatim>\<open>svc-a\<close> with the three callbacks registered.\<close>

definition svc :: acceptor where
  "svc = MoveIOFunctionToAlertableThread True
           (SetExceptionCallback True (SetNewConnectionCallback True (Acceptor ''svc-a'' ok)))"

text \<open>
  An Acceptor without callbacks whose loop has its events and a pending first connect.
\<close>

definition plain :: acceptor where
  "plain = snd (CreateConnectInstance connect_pending (started (Acceptor ''svc-a'' ok)))"

text \<open>A run that accepts two clients and is then stopped.\<close>

definition two_accepts :: thread_env where
  "two_accepts = run_of [wake WAIT_OBJECT_0, wake WAIT_OBJECT_0, wake (WAIT_OBJECT_0 + 2)]"

text \<open>
  A \<open>Stop\<close> whose signal wakes the loop (the wait returns \<^verbatim>\<open>WAIT_OBJECT_0 + 2\<close>), and a
  later \<open>Stop\<close> that finds no thread. \<open>listening\<close> is the Acceptor after \<open>Listen\<close>, its thread
  in the first wait; \<open>stopped_once\<close> and \<open>stopped_twice\<close> are the states after one and two
  calls of \<open>Stop\<close>.
\<close>

definition stop_now :: stop_env where
  "stop_now = \<lparr>set_close_event = ok, wakeups = [wake (WAIT_OBJECT_0 + 2)],
               on_exception_joined = Returns\<rparr>"

definition stop_again :: stop_env where
  "stop_again = \<lparr>set_close_event = ok, wakeups = [], on_exception_joined = Returns\<rparr>"

definition listening :: acceptor where
  "listening = the (Listen (run_of []) svc)"

definition stopped_once :: acceptor where
  "stopped_once = the (Stop stop_now listening)"

definition stopped_twice :: acceptor where
  "stopped_twice = the (Stop stop_again stopped_once)"

text \<open>
  A life in which one client is accepted before the Acceptor is destroyed, without and
  with a new-connection callback; \<open>unserved\<close> and \<open>served\<close> are the final states.
\<close>

definition one_client :: "call list" where
  "one_client = [Call_Listen (run_of [wake WAIT_OBJECT_0])]"

definition unserved :: acceptor where
  "unserved = the (lifetime ''svc-a'' ok one_client stop_now)"

definition served :: acceptor where
  "served = the (lifetime ''svc-a'' ok (Call_SetNewConnectionCallback True # one_client) stop_now)"

text \<open>
  Runs and wake-ups in which one call fails: the connect event is not created; the first
  pipe is not created; the result of a pending connect cannot be fetched; the connect on
  the next endpoint is refused. \<open>armed\<close> is \<open>svc\<close> in the first wait of its loop.
\<close>

definition no_conn_event :: thread_env where
  "no_conn_event = (run_of [])\<lparr>create_conn_event := err 8\<rparr>"

definition no_first_pipe :: thread_env where
  "no_first_pipe = (run_of [])\<lparr>first_connect := connect_pending\<lparr>create_pipe := err 231\<rparr>\<rparr>"

definition fetch_fails :: iter_env where
  "fetch_fails = (wake WAIT_OBJECT_0)\<lparr>overlapped := err 109\<rparr>"

definition rearm_refused :: iter_env where
  "rearm_refused =
     (wake WAIT_OBJECT_0)\<lparr>rearm := connect_pending\<lparr>connect_pipe := err 5\<rparr>\<rparr>"

definition armed :: acceptor where
  "armed = snd (CreateConnectInstance connect_pending (started svc))"

section \<open>Lemmas\<close>

subsection \<open>The shape of a run\<close>

lemma wait_consts [simp]:
  "WAIT_OBJECT_0 + 1 \<noteq> WAIT_OBJECT_0" "WAIT_OBJECT_0 + 2 \<noteq> WAIT_OBJECT_0"
  "WAIT_OBJECT_0 + 2 \<noteq> WAIT_OBJECT_0 + 1" "WAIT_OBJECT_0 + 1 \<noteq> WAIT_OBJECT_0 + 2"
  "WAIT_IO_COMPLETION \<noteq> WAIT_OBJECT_0" "WAIT_IO_COMPLETION \<noteq> WAIT_OBJECT_0 + 1"
  "WAIT_IO_COMPLETION \<noteq> WAIT_OBJECT_0 + 2"
  by (simp_all add: WAIT_OBJECT_0_def WAIT_IO_COMPLETION_def)

lemma advanced_refl: "advanced a [] a"
  by (simp add: advanced_def)

lemma advanced_trans:
  "advanced a xs a' \<Longrightarrow> advanced a' ys a'' \<Longrightarrow> advanced a (xs @ ys) a''"
  by (auto simp: advanced_def)

lemma advanced_emit: "advanced a [x] (emit x a)"
  by (simp add: advanced_def emit_def)

lemma advanced_performed: "advanced a xs a' \<Longrightarrow> performed a a' = xs"
  by (simp add: advanced_def performed_def)

lemma cci_post:
  "snd (CreateConnectInstance e a) =
     (if \<not> success (create_pipe e)
      then a\<lparr>next_pipe := INVALID_HANDLE_VALUE,
             trace := trace a @ [A_CreateNamedPipe (c_str (pipe_name a)) INVALID_HANDLE_VALUE]\<rparr>
      else a\<lparr>next_pipe := Handle (fresh a), fresh := Suc (fresh a),
             stop_signaled := (stop_signaled a \<or>
                (\<not> success (connect_pipe e) \<and> gle (connect_pipe e) \<noteq> ERROR_IO_PENDING \<and>
                 gle (connect_pipe e) = ERROR_PIPE_CONNECTED \<and> success (set_event e) \<and>
                 hEvent a = close_event a)),
             trace := trace a @
               [A_CreateNamedPipe (c_str (pipe_name a)) (Handle (fresh a)),
                A_ConnectNamedPipe (Handle (fresh a)) (hEvent a) (success (connect_pipe e))] @
               (if \<not> success (connect_pipe e) \<and> gle (connect_pipe e) \<noteq> ERROR_IO_PENDING \<and>
                   gle (connect_pipe e) = ERROR_PIPE_CONNECTED
                then [A_SetEvent (hEvent a) (success (set_event e))] else [])\<rparr>)"
  by (simp add: CreateConnectInstance_def CreateNamedPipe_def ConnectNamedPipe_def
      SetEvent_def emit_def Let_def split: prod.splits)

lemma cci_advanced:
  "\<exists>xs. advanced a xs (snd (CreateConnectInstance e a)) \<and> (\<forall>x\<in>set xs. loop_action l a x)"
  unfolding cci_post by (simp add: advanced_def loop_action_def)

lemma loop_action_cong:
  "advanced a xs a' \<Longrightarrow> loop_action (l\<lparr>pedding := p\<rparr>) a' = loop_action l a"
  by (auto simp: advanced_def loop_action_def fun_eq_iff split: action.splits)

lemma connect_ready_advanced:
  "\<exists>xs. advanced a xs (snd (connect_ready l it a)) \<and> (\<forall>x\<in>set xs. loop_action l a x)"
proof -
  obtain b a1 where g: "(if pedding l then GetOverlappedResult (next_pipe a) (overlapped it) a
             else (True, a)) = (b, a1)" by fastforce
  then obtain xs1 where a1: "advanced a xs1 a1" "\<forall>x\<in>set xs1. loop_action l a x"
    by (auto simp: GetOverlappedResult_def advanced_def emit_def loop_action_def split: if_splits)
  obtain r a2 where c: "call_new_connection_callback (next_pipe a1) (write_event l)
                   (on_new_connection it) a1 = (r, a2)" by fastforce
  then obtain xs2 where a2: "advanced a1 xs2 a2" "\<forall>x\<in>set xs2. loop_action l a1 x"
    by (auto simp: call_new_connection_callback_def advanced_def emit_def loop_action_def split: if_splits)
  obtain xs3 where a3: "advanced a2 xs3 (snd (CreateConnectInstance (rearm it) a2))"
      "\<forall>x\<in>set xs3. loop_action l a2 x"
    using cci_advanced by blast
  have la1: "loop_action l a1 = loop_action l a" using loop_action_cong[OF a1(1), where l=l and p="pedding l"] by simp
  have la2: "loop_action l a2 = loop_action l a" using loop_action_cong[OF a2(1), where l=l and p="pedding l"] la1 by simp
  show ?thesis
  proof (cases "b")
    case False
    then show ?thesis using g a1 by (auto simp: connect_ready_def)
  next
    case True
    show ?thesis
    proof (cases r)
      case Returns
      have "advanced a (xs1 @ xs2 @ xs3) (snd (CreateConnectInstance (rearm it) a2))"
        using a1(1) a2(1) a3(1) advanced_trans by blast
      moreover have "\<forall>x\<in>set (xs1 @ xs2 @ xs3). loop_action l a x"
        using a1(2) a2(2) a3(2) la1 la2 by auto
      moreover have "snd (connect_ready l it a) = snd (CreateConnectInstance (rearm it) a2)"
        using g c True Returns by (auto simp: connect_ready_def split: prod.splits sum.splits)
      ultimately show ?thesis by metis
    next
      case (Throws x)
      have "advanced a (xs1 @ xs2) a2" using a1(1) a2(1) advanced_trans by blast
      moreover have "\<forall>x\<in>set (xs1 @ xs2). loop_action l a x"
        using a1(2) a2(2) la1 by auto
      moreover have "snd (connect_ready l it a) = a2"
        using g c True Throws by (auto simp: connect_ready_def)
      ultimately show ?thesis by metis
    qed
  qed
qed

lemma loop_step_advanced:
  "\<exists>xs. advanced a xs (snd (loop_step l it a)) \<and> (\<forall>x\<in>set xs. loop_action l a x)"
proof -
  obtain w a1 where w: "WaitForMultipleObjectsEx (events l) (wait it) a = (w, a1)" by fastforce
  then have a1: "advanced a [A_WaitForMultipleObjectsEx (events l) w] a1"
    by (auto simp: WaitForMultipleObjectsEx_def advanced_def emit_def)
  have la: "loop_action l a (A_WaitForMultipleObjectsEx (events l) w)"
    by (simp add: loop_action_def)
  have la1: "loop_action l a1 = loop_action l a" using loop_action_cong[OF a1, where l=l and p="pedding l"] by simp
  obtain xs2 where a2: "advanced a1 xs2 (snd (connect_ready l it a1))" "\<forall>x\<in>set xs2. loop_action l a1 x"
    using connect_ready_advanced by blast
  obtain r a3 where c: "call_async_io_callback (on_async_io it) a1 = (r, a3)" by fastforce
  then obtain xs3 where a3: "advanced a1 xs3 a3" "\<forall>x\<in>set xs3. loop_action l a1 x"
    by (auto simp: call_async_io_callback_def advanced_def emit_def loop_action_def split: if_splits)
  consider "w = WAIT_OBJECT_0" | "w = WAIT_OBJECT_0 + 1" | "w \<noteq> WAIT_OBJECT_0" "w \<noteq> WAIT_OBJECT_0 + 1"
    by blast
  then show ?thesis
  proof cases
    case 1
    then have "snd (loop_step l it a) = snd (connect_ready l it a1)"
      using w by (simp add: loop_step_def)
    moreover have "advanced a ([A_WaitForMultipleObjectsEx (events l) w] @ xs2) (snd (connect_ready l it a1))"
      using a1 a2(1) advanced_trans by blast
    moreover have "\<forall>x\<in>set ([A_WaitForMultipleObjectsEx (events l) w] @ xs2). loop_action l a x"
      using la a2(2) la1 by auto
    ultimately show ?thesis by metis
  next
    case 2
    then have "snd (loop_step l it a) = a3"
      using w c by (simp add: loop_step_def split: cb_result.splits)
    moreover have "advanced a ([A_WaitForMultipleObjectsEx (events l) w] @ xs3) a3"
      using a1 a3(1) advanced_trans by blast
    moreover have "\<forall>x\<in>set ([A_WaitForMultipleObjectsEx (events l) w] @ xs3). loop_action l a x"
      using la a3(2) la1 by auto
    ultimately show ?thesis by metis
  next
    case 3
    then have "snd (loop_step l it a) = a1"
      using w by (simp add: loop_step_def)
    then show ?thesis using a1 la by fastforce
  qed
qed

lemma loop_advanced:
  "\<exists>xs. advanced a xs (snd (loop l its a)) \<and> (\<forall>x\<in>set xs. loop_action l a x)"
proof (induction its arbitrary: l a)
  case Nil
  show ?case using advanced_refl by fastforce
next
  case (Cons it its)
  obtain r a1 where s: "loop_step l it a = (r, a1)" by fastforce
  obtain xs1 where a1: "advanced a xs1 a1" "\<forall>x\<in>set xs1. loop_action l a x"
    using loop_step_advanced[of a l it] s by auto
  show ?case
  proof (cases r)
    case (Continue p)
    obtain xs2 where a2: "advanced a1 xs2 (snd (loop (l\<lparr>pedding := p\<rparr>) its a1))"
      "\<forall>x\<in>set xs2. loop_action (l\<lparr>pedding := p\<rparr>) a1 x"
      using Cons.IH by blast
    have "advanced a (xs1 @ xs2) (snd (loop (l\<lparr>pedding := p\<rparr>) its a1))"
      using a1(1) a2(1) advanced_trans by blast
    moreover have "\<forall>x\<in>set (xs1 @ xs2). loop_action l a x"
      using a1(2) a2(2) loop_action_cong[OF a1(1)] by auto
    moreover have "snd (loop l (it # its) a) = snd (loop (l\<lparr>pedding := p\<rparr>) its a1)"
      using s Continue by simp
    ultimately show ?thesis by metis
  next
    case Return
    then show ?thesis using s a1 by auto
  next
    case (Throw x)
    then show ?thesis using s a1 by auto
  qed
qed

lemmas run_defs = LinstenInThread_def try_block_def after_try_def leave_scope_def ScopeGuard_def CloseHandle_def
     loop_step_def connect_and_loop_def connect_ready_def call_new_connection_callback_def call_async_io_callback_def
     CreateConnectInstance_def CreateNamedPipe_def ConnectNamedPipe_def GetOverlappedResult_def WaitForMultipleObjectsEx_def
     SetEvent_def CreateEvent_def emit_def Acceptor_def run_of_def wake_def connect_pending_def ok_def err_def
     WAIT_OBJECT_0_def WAIT_IO_COMPLETION_def ERROR_IO_PENDING_def ERROR_PIPE_CONNECTED_def exception_calls_def Let_def
     svc_def c_str_def backslash_def SetNewConnectionCallback_def SetExceptionCallback_def MoveIOFunctionToAlertableThread_def performed_def

lemma loop_action_no_exception: "\<forall>x\<in>set xs. loop_action l a x \<Longrightarrow> exception_calls xs = []"
  by (induction xs) (auto simp: exception_calls_def loop_action_def split: action.splits)

lemma exception_calls_append [simp]: "exception_calls (xs @ ys) = exception_calls xs @ exception_calls ys"
  by (simp add: exception_calls_def)

lemma fst_leave_scope: "fst (leave_scope l x) = fst x"
  by (auto simp: leave_scope_def split: prod.splits loop_exit.splits)

lemma leave_scope_advanced:
  "advanced a (if (\<exists>l'. fst x = Blocked l') then [] else [A_CloseHandle (write_event l), A_CloseHandle (conn_event l)]) (snd (leave_scope l x))"
  if "a = snd x"
  using that
  by (auto simp: leave_scope_def advanced_def ScopeGuard_def CloseHandle_def emit_def split: prod.splits loop_exit.splits)

lemma connect_and_loop_advanced:
  "\<exists>xs. advanced a xs (snd (connect_and_loop l e its a)) \<and> (\<forall>x\<in>set xs. loop_action l a x)"
proof -
  obtain r a4 where c: "CreateConnectInstance e a = (r, a4)" by fastforce
  obtain xs1 where a1: "advanced a xs1 a4" "\<forall>x\<in>set xs1. loop_action l a x"
    using cci_advanced[of a e l] c by auto
  show ?thesis
  proof (cases r)
    case (Inl x)
    then show ?thesis using c a1 by (auto simp: connect_and_loop_def)
  next
    case (Inr p)
    obtain xs2 where a2: "advanced a4 xs2 (snd (loop (l\<lparr>pedding := p\<rparr>) its a4))"
       "\<forall>x\<in>set xs2. loop_action (l\<lparr>pedding := p\<rparr>) a4 x"
      using loop_advanced by blast
    have "advanced a (xs1 @ xs2) (snd (loop (l\<lparr>pedding := p\<rparr>) its a4))"
      using a1(1) a2(1) advanced_trans by blast
    moreover have "\<forall>x\<in>set (xs1 @ xs2). loop_action l a x"
      using a1(2) a2(2) loop_action_cong[OF a1(1)] by auto
    ultimately show ?thesis using c Inr by (auto simp: connect_and_loop_def)
  qed
qed

text \<open>The three ways through the try block.\<close>

lemma try_block_no_conn_event:
  "\<not> success (create_conn_event env) \<Longrightarrow>
   try_block env a =
     (Raised (failure ''CreateEvent (connect event) failed GLE = '' (gle (create_conn_event env))),
      a\<lparr>trace := trace a @ [A_CreateEvent True True NULL]\<rparr>)"
  by (simp add: try_block_def CreateEvent_def emit_def ScopeGuard_def)

lemma try_block_no_write_event:
  "success (create_conn_event env) \<Longrightarrow> \<not> success (create_write_event env) \<Longrightarrow>
   try_block env a =
     (Raised (failure ''CreateEvent (write event) failed GLE = '' (gle (create_write_event env))),
      a\<lparr>fresh := Suc (fresh a),
        trace := trace a @ [A_CreateEvent True True (Handle (fresh a)), A_CreateEvent False False NULL,
                           A_CloseHandle (Handle (fresh a))]\<rparr>)"
  by (simp add: try_block_def CreateEvent_def emit_def ScopeGuard_def CloseHandle_def)

lemma try_block_events:
  "success (create_conn_event env) \<Longrightarrow> success (create_write_event env) \<Longrightarrow>
   try_block env a =
     leave_scope (first_locals a)
       (connect_and_loop (first_locals a) (first_connect env) (iterations env) (started a))"
  by (simp add: try_block_def CreateEvent_def emit_def started_def first_locals_def Let_def)

lemma try_block_trace:
  "\<exists>xs. trace (snd (try_block env a)) = trace a @ xs \<and> exception_calls xs = []
      \<and> exception_callback (snd (try_block env a)) = exception_callback a"
proof (cases "success (create_conn_event env) \<and> success (create_write_event env)")
  case False
  then show ?thesis
    using try_block_no_conn_event[of env a] try_block_no_write_event[of env a]
    by (cases "success (create_conn_event env)") (auto simp: exception_calls_def)
next
  case True
  let ?x = "connect_and_loop (first_locals a) (first_connect env) (iterations env) (started a)"
  obtain xs where xs: "advanced (started a) xs (snd ?x)" "\<forall>x\<in>set xs. loop_action (first_locals a) (started a) x"
    using connect_and_loop_advanced by blast
  obtain ys where ys: "advanced (snd ?x) ys (snd (leave_scope (first_locals a) ?x))" "exception_calls ys = []"
    using leave_scope_advanced[OF refl, of ?x "first_locals a"]
    by (cases "\<exists>l'. fst ?x = Blocked l'") (auto simp: exception_calls_def)
  have "advanced (started a) (xs @ ys) (snd (try_block env a))"
    using xs(1) ys(1) advanced_trans try_block_events True by metis
  then show ?thesis
    using loop_action_no_exception[OF xs(2)] ys(2)
    by (auto simp: advanced_def started_def exception_calls_def)
qed

subsection \<open>A loop that has ended reads no further wake-up\<close>

lemma loop_more:
  "(\<And>l'. fst (loop l its a) \<noteq> Blocked l') \<Longrightarrow> loop l (its @ rest) a = loop l its a"
proof (induction its arbitrary: l a)
  case Nil
  show ?case using Nil[of l] by simp
next
  case (Cons it its)
  obtain r a1 where s: "loop_step l it a = (r, a1)" by fastforce
  show ?case
  proof (cases r)
    case (Continue p)
    then have "\<And>l'. fst (loop (l\<lparr>pedding := p\<rparr>) its a1) \<noteq> Blocked l'"
      using Cons.prems s by simp
    then show ?thesis using Cons.IH s Continue by simp
  qed (use s in auto)
qed

lemma connect_and_loop_more:
  "(\<And>l'. fst (connect_and_loop l e its a) \<noteq> Blocked l') \<Longrightarrow>
   connect_and_loop l e (its @ rest) a = connect_and_loop l e its a"
  using loop_more
  by (auto simp: connect_and_loop_def split: prod.splits sum.splits)

lemma try_block_more:
  assumes "fst (try_block env a) = Raised e"
  shows "try_block (env\<lparr>iterations := iterations env @ rest\<rparr>) a = try_block env a"
proof (cases "success (create_conn_event env) \<and> success (create_write_event env)")
  case False
  then show ?thesis
    using try_block_no_conn_event[of env a] try_block_no_write_event[of env a]
      try_block_no_conn_event[of "env\<lparr>iterations := iterations env @ rest\<rparr>" a]
      try_block_no_write_event[of "env\<lparr>iterations := iterations env @ rest\<rparr>" a]
    by (cases "success (create_conn_event env)") auto
next
  case True
  let ?x = "connect_and_loop (first_locals a) (first_connect env) (iterations env) (started a)"
  have "fst ?x = Raised e"
    using assms True by (simp add: try_block_events fst_leave_scope)
  then have "connect_and_loop (first_locals a) (first_connect env) (iterations env @ rest) (started a) = ?x"
    using connect_and_loop_more by simp
  then show ?thesis using True by (simp add: try_block_events)
qed

subsection \<open>The accepting iteration and the actions of a whole run\<close>

lemma accept_step:
  assumes "wait_ret (wait it) = WAIT_OBJECT_0" "pedding l \<longrightarrow> success (overlapped it)"
  shows "loop_step l it a =
     (case (if new_connection_callback a then on_new_connection it else Returns) of
        Throws x \<Rightarrow> (Throw x, delivered l it a)
      | Returns \<Rightarrow>
          (case CreateConnectInstance (rearm it) (delivered l it a) of
             (Inl x, a') \<Rightarrow> (Throw x, a')
           | (Inr p, a') \<Rightarrow> (Continue p, a')))"
  using assms
  by (auto simp add: loop_step_def connect_ready_def WaitForMultipleObjectsEx_def
      GetOverlappedResult_def call_new_connection_callback_def emit_def delivered_def
      split: cb_result.splits)

lemma cci_result:
  "fst (CreateConnectInstance e a) =
     (if \<not> success (create_pipe e)
      then Inl (failure ''CreateNamedPipe failed GLE = '' (gle (create_pipe e)))
      else if success (connect_pipe e)
      then Inl (failure ''ConnectNamedPipe failed GLE = '' (gle (connect_pipe e)))
      else if gle (connect_pipe e) = ERROR_IO_PENDING then Inr True
      else if gle (connect_pipe e) = ERROR_PIPE_CONNECTED
      then (if success (set_event e) then Inr False
            else Inl (failure ''ConnectNamedPipe failed GLE = '' (gle (set_event e))))
      else Inl (failure ''ConnectNamedPipe failed GLE = '' (gle (connect_pipe e))))"
  by (simp add: CreateConnectInstance_def CreateNamedPipe_def ConnectNamedPipe_def
      SetEvent_def emit_def Let_def split: prod.splits)

lemma run_shape:
  assumes "success (create_conn_event env)" "success (create_write_event env)"
  shows "\<exists>xs ys. performed a (snd (LinstenInThread env a)) =
            [A_CreateEvent True True (Handle (fresh a)),
             A_CreateEvent False False (Handle (Suc (fresh a)))] @ xs @ ys
          \<and> (\<forall>x\<in>set xs. loop_action (first_locals a) (started a) x)
          \<and> (\<forall>y\<in>set ys. case y of A_CloseHandle h \<Rightarrow> True | A_exception_callback e r \<Rightarrow> True | _ \<Rightarrow> False)"
proof -
  let ?x = "connect_and_loop (first_locals a) (first_connect env) (iterations env) (started a)"
  obtain xs where xs: "advanced (started a) xs (snd ?x)"
      "\<forall>x\<in>set xs. loop_action (first_locals a) (started a) x"
    using connect_and_loop_advanced by blast
  let ?cl = "if (\<exists>l'. fst ?x = Blocked l') then [] else [A_CloseHandle (write_event (first_locals a)), A_CloseHandle (conn_event (first_locals a))]"
  have ys: "advanced (snd ?x) ?cl (snd (leave_scope (first_locals a) ?x))"
    using leave_scope_advanced[OF refl, of ?x "first_locals a"] by blast
  have t: "advanced (started a) (xs @ ?cl) (snd (try_block env a))"
    using xs(1) ys advanced_trans try_block_events[of env a] assms by metis
  obtain r a' where ra: "try_block env a = (r, a')" by fastforce
  have "\<exists>zs. trace (snd (LinstenInThread env a)) = trace a' @ zs \<and>
      (\<forall>y\<in>set zs. case y of A_CloseHandle h \<Rightarrow> True | A_exception_callback e r \<Rightarrow> True | _ \<Rightarrow> False)"
    using ra by (auto simp: LinstenInThread_def after_try_def emit_def split: loop_exit.splits)
  then obtain zs where zs: "trace (snd (LinstenInThread env a)) = trace a' @ zs"
      "\<forall>y\<in>set zs. case y of A_CloseHandle h \<Rightarrow> True | A_exception_callback e r \<Rightarrow> True | _ \<Rightarrow> False"
    by blast
  have "performed a (snd (LinstenInThread env a)) =
            [A_CreateEvent True True (Handle (fresh a)),
             A_CreateEvent False False (Handle (Suc (fresh a)))] @ xs @ (?cl @ zs)"
    using t zs(1) ra by (simp add: advanced_def started_def performed_def)
  moreover have "\<forall>y\<in>set (?cl @ zs). case y of A_CloseHandle h \<Rightarrow> True | A_exception_callback e r \<Rightarrow> True | _ \<Rightarrow> False"
    using zs(2) by auto
  ultimately show ?thesis using xs(2) by blast
qed

lemma run_shape_failed:
  assumes "\<not> (success (create_conn_event env) \<and> success (create_write_event env))"
  shows "\<forall>y\<in>set (performed a (snd (LinstenInThread env a))).
     case y of A_CloseHandle h \<Rightarrow> True | A_exception_callback e r \<Rightarrow> True
      | A_CreateEvent m i h \<Rightarrow> True | _ \<Rightarrow> False"
  using assms try_block_no_conn_event[of env a] try_block_no_write_event[of env a]
  by (cases "success (create_conn_event env)")
     (auto simp: LinstenInThread_def after_try_def emit_def performed_def)

lemma loop_action_no_event: "\<forall>x\<in>set xs. loop_action l a x \<Longrightarrow> created_events xs = []"
  by (induction xs) (auto simp: created_events_def loop_action_def split: action.splits)

lemma unwinding_no_event:
  "\<forall>y\<in>set ys. (case y of A_CloseHandle h \<Rightarrow> True | A_exception_callback e r \<Rightarrow> True | _ \<Rightarrow> False)
     \<Longrightarrow> created_events ys = []"
  by (induction ys) (auto simp: created_events_def split: action.splits)

lemma created_events_append [simp]:
  "created_events (xs @ ys) = created_events xs @ created_events ys"
  by (simp add: created_events_def)

subsection \<open>The order of deliveries and creations\<close>

lemma accept_view_append [simp]: "accept_view (xs @ ys) = accept_view xs @ accept_view ys"
  by (simp add: accept_view_def)



lemma performed_trans:
  "advanced a xs a1 \<Longrightarrow> advanced a1 ys a2 \<Longrightarrow> performed a a2 = performed a a1 @ performed a1 a2"
  by (simp add: advanced_def performed_def)

lemma other_step:
  assumes "\<not> (wait_ret (wait it) = WAIT_OBJECT_0 \<and> (pedding l \<longrightarrow> success (overlapped it)))"
  shows "next_pipe (snd (loop_step l it a)) = next_pipe a"
    and "accept_view (performed a (snd (loop_step l it a))) = []"
    and "\<forall>h. A_CloseHandle h \<notin> set (performed a (snd (loop_step l it a)))"
  using assms
  by (auto simp add: loop_step_def connect_ready_def WaitForMultipleObjectsEx_def
      GetOverlappedResult_def call_async_io_callback_def emit_def performed_def accept_view_def
      split: cb_result.splits)


lemma delivered_advanced: "advanced a (performed a (delivered l it a)) (delivered l it a)"
  by (simp add: delivered_def advanced_def performed_def)


lemma advanced_performed_self: "advanced a xs a' \<Longrightarrow> advanced a (performed a a') a'"
  by (simp add: advanced_def performed_def)




subsection \<open>\<open>Stop\<close>\<close>

lemmas stop_defs = Listen_def Stop_def join_def DisconnectNamedPipe_def stop_now_def
  stop_again_def
  listening_def stopped_once_def stopped_twice_def

lemma Stop_joins:
  assumes "Stop e a = Some s"
  shows "listen_thread s = No_thread"
proof -
  obtain b a1 where se: "SetEvent (close_event a) (set_close_event e) a = (b, a1)" by fastforce
  have lt: "listen_thread (DisconnectNamedPipe (next_pipe a1) a1) = listen_thread a"
    using se by (auto simp: SetEvent_def DisconnectNamedPipe_def emit_def)
  show ?thesis
  proof (cases "listen_thread a = No_thread")
    case True
    then show ?thesis using assms se lt by (auto simp: Stop_def)
  next
    case False
    then have "join e (DisconnectNamedPipe (next_pipe a1) a1) = Some s"
      using assms se lt by (auto simp: Stop_def)
    then show ?thesis
      by (auto simp: join_def emit_def split: thread.splits prod.splits thread_exit.splits)
  qed
qed



subsection \<open>The invariant of the handles\<close>

lemma closed_append [simp]: "closed (xs @ ys) = closed xs @ closed ys"
  by (simp add: closed_def)

lemma created_pipes_append [simp]: "created_pipes (xs @ ys) = created_pipes xs @ created_pipes ys"
  by (simp add: created_pipes_def)

lemma handed_over_append [simp]: "handed_over (xs @ ys) = handed_over xs @ handed_over ys"
  by (simp add: handed_over_def)

lemma neutral_lists:
  assumes "\<forall>x\<in>set xs. neutral x"
  shows "created_events xs = []" "created_pipes xs = []" "closed xs = []" "handed_over xs = []"
  using assms
  by (induction xs)
     (auto simp: neutral_def created_events_def created_pipes_def closed_def handed_over_def)

lemma owned_step:
  assumes o: "owned evs a"
    and ce: "created_events (trace a') = created_events (trace a)"
    and cl: "closed (trace a') = closed (trace a)"
    and cv: "close_event a' = close_event a"
    and cp: "created_pipes (trace a') = created_pipes (trace a) @ ps"
    and ps: "\<forall>h\<in>set ps. h = INVALID_HANDLE_VALUE \<or> (\<exists>n. h = Handle n \<and> fresh a \<le> n \<and> n < fresh a')"
    and fr: "fresh a \<le> fresh a'"
    and np: "next_pipe a' = next_pipe a \<or> next_pipe a' = INVALID_HANDLE_VALUE \<or>
             (\<exists>n. next_pipe a' = Handle n \<and> fresh a \<le> n \<and> Handle n \<in> set ps)"
    and ho: "handed_over (trace a') = handed_over (trace a) @ hs"
    and hs: "\<forall>n. Handle n \<in> set hs \<longrightarrow> Handle n = next_pipe a \<and> next_pipe a' \<noteq> next_pipe a"
  shows "owned evs a'"
proof -
  note d = o[unfolded owned_def]
  have 1: "\<forall>n. Handle n \<in> set (created_events (trace a')) \<union> set (created_pipes (trace a')) \<longrightarrow> n < fresh a'"
  proof (intro allI impI)
    fix n assume "Handle n \<in> set (created_events (trace a')) \<union> set (created_pipes (trace a'))"
    then consider "Handle n \<in> set (created_events (trace a)) \<union> set (created_pipes (trace a))"
      | "Handle n \<in> set ps" unfolding ce cp by auto
    then show "n < fresh a'"
    proof cases
      case 1 then have "n < fresh a" using d by blast
      then show ?thesis using fr by simp
    next
      case 2 then show ?thesis using ps by auto
    qed
  qed
  have 2: "\<forall>n. Handle n \<in> set (created_events (trace a')) \<longrightarrow> Handle n \<notin> set (created_pipes (trace a'))"
  proof (intro allI impI)
    fix n assume e: "Handle n \<in> set (created_events (trace a'))"
    then have "Handle n \<in> set (created_events (trace a))" unfolding ce .
    then have "Handle n \<notin> set (created_pipes (trace a))" "n < fresh a" using d by blast+
    moreover have "Handle n \<notin> set ps" using ps \<open>n < fresh a\<close> by auto
    ultimately show "Handle n \<notin> set (created_pipes (trace a'))" unfolding cp by simp
  qed
  have 3: "distinct (closed (trace a'))" "NULL \<notin> set (closed (trace a'))"
    "INVALID_HANDLE_VALUE \<notin> set (closed (trace a'))"
    "set (closed (trace a')) \<subseteq> set (created_events (trace a'))"
    "set (closed (trace a')) \<inter> evs = {}" "close_event a' \<notin> set (closed (trace a'))"
    unfolding cl ce cv using d by blast+
  have 4: "\<forall>n. Handle n \<in> set (created_events (trace a'))
              \<longrightarrow> Handle n \<in> set (closed (trace a')) \<or> Handle n \<in> evs \<or> Handle n = close_event a'"
    unfolding cl ce cv using d by blast
  have 5: "\<forall>n. next_pipe a' = Handle n \<longrightarrow> Handle n \<in> set (created_pipes (trace a'))"
  proof (intro allI impI)
    fix n assume n: "next_pipe a' = Handle n"
    then consider "next_pipe a = Handle n" | "Handle n \<in> set ps" using np by auto
    then show "Handle n \<in> set (created_pipes (trace a'))"
    proof cases
      case 1 then have "Handle n \<in> set (created_pipes (trace a))" using d by blast
      then show ?thesis unfolding cp by simp
    next
      case 2 then show ?thesis unfolding cp by simp
    qed
  qed
  have 6: "\<forall>n. Handle n \<in> set (handed_over (trace a'))
              \<longrightarrow> Handle n \<in> set (created_pipes (trace a')) \<and> Handle n \<noteq> next_pipe a'"
  proof (intro allI impI)
    fix n assume "Handle n \<in> set (handed_over (trace a'))"
    then consider "Handle n \<in> set (handed_over (trace a))" | "Handle n \<in> set hs"
      unfolding ho by auto
    then show "Handle n \<in> set (created_pipes (trace a')) \<and> Handle n \<noteq> next_pipe a'"
    proof cases
      case 1
      then have p: "Handle n \<in> set (created_pipes (trace a))" "Handle n \<noteq> next_pipe a"
        using d by blast+
      then have "n < fresh a" using d by blast
      then have "Handle n \<noteq> next_pipe a'" using np p(2) by auto
      then show ?thesis using p(1) unfolding cp by simp
    next
      case 2
      then have h: "Handle n = next_pipe a" "next_pipe a' \<noteq> next_pipe a" using hs by blast+
      then have "Handle n \<in> set (created_pipes (trace a))" using d by metis
      then show ?thesis using h unfolding cp by simp
    qed
  qed
  have 7: "\<forall>n. close_event a' = Handle n \<longrightarrow> Handle n \<in> set (created_events (trace a'))"
    "evs \<subseteq> set (created_events (trace a'))" "NULL \<notin> evs" "INVALID_HANDLE_VALUE \<notin> evs"
    "close_event a' \<notin> evs"
    unfolding ce cv using d by blast+
  show ?thesis
    unfolding owned_def using 1 2 3 4 5 6 7 by blast
qed

lemma owned_neutral:
  assumes "owned evs a" "trace a' = trace a @ xs" "\<forall>x\<in>set xs. neutral x"
    "fresh a' = fresh a" "next_pipe a' = next_pipe a" "close_event a' = close_event a"
  shows "owned evs a'"
  using assms(1)
  by (rule owned_step[where ps="[]" and hs="[]"])
     (simp_all add: assms(2,4,5,6) neutral_lists[OF assms(3)])

lemma cci_lists:
  "created_events (performed a (snd (CreateConnectInstance e a))) = []"
  "closed (performed a (snd (CreateConnectInstance e a))) = []"
  "handed_over (performed a (snd (CreateConnectInstance e a))) = []"
  "created_pipes (performed a (snd (CreateConnectInstance e a))) =
     [next_pipe (snd (CreateConnectInstance e a))]"
  "trace (snd (CreateConnectInstance e a)) = trace a @ performed a (snd (CreateConnectInstance e a))"
  "next_pipe (snd (CreateConnectInstance e a)) =
     (if success (create_pipe e) then Handle (fresh a) else INVALID_HANDLE_VALUE)"
  "fresh (snd (CreateConnectInstance e a)) =
     (if success (create_pipe e) then Suc (fresh a) else fresh a)"
  "close_event (snd (CreateConnectInstance e a)) = close_event a"
  unfolding cci_post
  by (simp_all add: performed_def created_events_def created_pipes_def closed_def handed_over_def)

lemma owned_cci:
  assumes "owned evs a"
  shows "owned evs (snd (CreateConnectInstance e a))"
  using assms
  apply (rule owned_step[where ps="[next_pipe (snd (CreateConnectInstance e a))]" and hs="[]"])
          apply (subst cci_lists(5), simp add: cci_lists(1))
         apply (subst cci_lists(5), simp add: cci_lists(2))
        apply (simp add: cci_lists(8))
       apply (subst cci_lists(5), simp add: cci_lists(4))
      apply (simp add: cci_lists(6,7))
     apply (simp add: cci_lists(7))
    apply (simp add: cci_lists(6))
   apply (subst cci_lists(5), simp add: cci_lists(3))
  apply simp
  done


lemma loop_action_no_close: "\<forall>x\<in>set xs. loop_action l a x \<Longrightarrow> closed xs = []"
  by (induction xs) (auto simp: closed_def loop_action_def split: action.splits)

lemma accept_view_Nil:
  "accept_view xs = [] \<Longrightarrow> created_pipes xs = [] \<and> handed_over xs = []"
  by (induction xs)
     (auto simp: accept_view_def created_pipes_def handed_over_def split: action.splits if_splits)

lemma delivered_lists:
  "created_pipes (performed a (delivered l it a)) = []"
  "handed_over (performed a (delivered l it a)) =
     (if new_connection_callback a \<and> on_new_connection it = Returns then [next_pipe a] else [])"
  "fresh (delivered l it a) = fresh a" "next_pipe (delivered l it a) = next_pipe a"
  by (auto simp: delivered_def performed_def created_pipes_def handed_over_def split: cb_result.splits)

lemma owned_loop_step:
  assumes o: "owned evs a"
  shows "owned evs (snd (loop_step l it a))"
proof -
  let ?a' = "snd (loop_step l it a)"
  obtain xs where adv: "advanced a xs ?a'" and la: "\<forall>x\<in>set xs. loop_action l a x"
    using loop_step_advanced by blast
  have tr: "trace ?a' = trace a @ xs" and cv: "close_event ?a' = close_event a"
    and fr: "fresh a \<le> fresh ?a'" and pf: "performed a ?a' = xs"
    using adv by (simp_all add: advanced_def performed_def)
  have ce: "created_events (trace ?a') = created_events (trace a)"
    unfolding tr using loop_action_no_event[OF la] by simp
  have cl: "closed (trace ?a') = closed (trace a)"
    unfolding tr using loop_action_no_close[OF la] by simp
  show ?thesis
  proof (cases "wait_ret (wait it) = WAIT_OBJECT_0 \<and> (pedding l \<longrightarrow> success (overlapped it))")
    case False
    have "next_pipe ?a' = next_pipe a" "accept_view xs = []"
      using other_step(1,2)[OF False, of a] pf by simp_all
    then show ?thesis
      using accept_view_Nil[of xs]
      by (intro owned_step[OF o ce cl cv, where ps="[]" and hs="[]"]) (simp_all add: tr fr)
  next
    case True
    note st = accept_step[of it l a] True
    let ?d = "delivered l it a"
    show ?thesis
    proof (cases "new_connection_callback a \<and> on_new_connection it \<noteq> Returns")
      case True
      then have "?a' = ?d" using st by (auto split: cb_result.splits)
      then have td: "trace ?a' = trace a @ performed a ?d" using pf tr by simp
      have eq: "fresh ?a' = fresh a" "next_pipe ?a' = next_pipe a"
        using \<open>?a' = ?d\<close> by (simp_all add: delivered_lists)
      have "handed_over (performed a ?d) = []" "created_pipes (performed a ?d) = []"
        using True by (simp_all add: delivered_lists)
      then show ?thesis
        by (intro owned_step[OF o ce cl cv, where ps="[]" and hs="[]"]) (simp_all add: td eq)
    next
      case False
      let ?c = "snd (CreateConnectInstance (rearm it) ?d)"
      have a': "?a' = ?c" using st False by (auto split: cb_result.splits prod.splits sum.splits)
      have "advanced a (performed a ?d) ?d" by (rule delivered_advanced)
      moreover obtain zs where "advanced ?d zs ?c" using cci_advanced by blast
      ultimately have xs: "xs = performed a ?d @ performed ?d ?c"
        using performed_trans pf a' by metis
      have np: "next_pipe ?a' = (if success (create_pipe (rearm it)) then Handle (fresh a) else INVALID_HANDLE_VALUE)"
        and fa: "fresh ?a' = (if success (create_pipe (rearm it)) then Suc (fresh a) else fresh a)"
        unfolding a' by (simp_all add: cci_lists delivered_lists)
      have cp: "created_pipes (trace ?a') = created_pipes (trace a) @ [next_pipe ?a']"
        unfolding tr xs by (simp add: cci_lists(4) delivered_lists a')
      have ho: "handed_over (trace ?a') = handed_over (trace a) @
          (if new_connection_callback a \<and> on_new_connection it = Returns then [next_pipe a] else [])"
        unfolding tr xs by (simp add: cci_lists(3) delivered_lists)
      have lt: "\<forall>n. next_pipe a = Handle n \<longrightarrow> n < fresh a"
        using o unfolding owned_def by blast
      have nn: "next_pipe a \<noteq> Handle (fresh a)" "Handle (fresh a) \<noteq> next_pipe a"
        using lt less_irrefl by metis+
      show ?thesis
        by (rule owned_step[OF o ce cl cv cp _ fr _ ho]) (use np fa nn in \<open>auto split: if_splits\<close>)
    qed
  qed
qed

lemma owned_loop: "owned evs a \<Longrightarrow> owned evs (snd (loop l its a))"
proof (induction its arbitrary: l a)
  case Nil
  then show ?case by simp
next
  case (Cons it its)
  obtain r a1 where s: "loop_step l it a = (r, a1)" by fastforce
  then have "owned evs a1" using owned_loop_step[OF Cons.prems, of l it] by simp
  then show ?case using s Cons.IH by (cases r) auto
qed

lemma owned_connect_and_loop:
  "owned evs a \<Longrightarrow> owned evs (snd (connect_and_loop l e its a))"
  using owned_cci[of evs a e] owned_loop
  by (auto simp: connect_and_loop_def split: prod.splits sum.splits)

lemma loop_locals:
  "fst (loop l its a) = Blocked l' \<Longrightarrow>
   conn_event l' = conn_event l \<and> write_event l' = write_event l \<and> events l' = events l"
proof (induction its arbitrary: l a)
  case Nil
  then show ?case by simp
next
  case (Cons it its)
  obtain r a1 where s: "loop_step l it a = (r, a1)" by fastforce
  show ?case
  proof (cases r)
    case (Continue p)
    then show ?thesis using Cons.IH[of "l\<lparr>pedding := p\<rparr>" a1] Cons.prems s by simp
  qed (use s Cons.prems in auto)
qed

lemma connect_and_loop_locals:
  "fst (connect_and_loop l e its a) = Blocked l' \<Longrightarrow>
   conn_event l' = conn_event l \<and> write_event l' = write_event l \<and> events l' = events l"
  using loop_locals
  by (fastforce simp: connect_and_loop_def split: prod.splits sum.splits)

text \<open>events\<close>

lemma owned_irrelevant [simp]:
  "owned evs (a\<lparr>hEvent := h\<rparr>) = owned evs a"
  "owned evs (a\<lparr>listen_thread := t\<rparr>) = owned evs a"
  "owned evs (a\<lparr>stop_signaled := b\<rparr>) = owned evs a"
  "owned evs (a\<lparr>new_connection_callback := b\<rparr>) = owned evs a"
  "owned evs (a\<lparr>exception_callback := b\<rparr>) = owned evs a"
  "owned evs (a\<lparr>async_io_callback := b\<rparr>) = owned evs a"
  by (simp_all add: owned_def)

lemma owned_emit_neutral: "neutral x \<Longrightarrow> owned evs a \<Longrightarrow> owned evs (emit x a)"
  by (rule owned_neutral[where xs="[x]"]) (simp_all add: emit_def)

lemma owned_create_event:
  assumes o: "owned evs a"
    and tr: "trace a' = trace a @ [A_CreateEvent m i (Handle (fresh a))]"
    and fr: "fresh a' = Suc (fresh a)"
    and same: "next_pipe a' = next_pipe a" "close_event a' = close_event a"
  shows "owned (insert (Handle (fresh a)) evs) a'"
proof -
  note d = o[unfolded owned_def]
  have lt: "\<forall>n. Handle n \<in> set (created_events (trace a)) \<union> set (created_pipes (trace a)) \<longrightarrow> n < fresh a"
    using d by blast
  have new: "Handle (fresh a) \<notin> set (created_events (trace a))"
    "Handle (fresh a) \<notin> set (created_pipes (trace a))"
    using lt by auto
  have sub: "set (closed (trace a)) \<subseteq> set (created_events (trace a))" using d by blast
  have nc: "Handle (fresh a) \<notin> set (closed (trace a))" using new(1) sub by blast
  have ne: "close_event a \<noteq> Handle (fresh a)" using d new(1) by metis
  have np: "next_pipe a \<noteq> Handle (fresh a)" using d new(2) by metis
  have ho: "Handle (fresh a) \<notin> set (handed_over (trace a))" using d new(2) by blast
  have l: "created_events [A_CreateEvent m i (Handle (fresh a))] = [Handle (fresh a)]"
    "created_pipes [A_CreateEvent m i (Handle (fresh a))] = []"
    "closed [A_CreateEvent m i (Handle (fresh a))] = []"
    "handed_over [A_CreateEvent m i (Handle (fresh a))] = []"
    by (simp_all add: created_events_def created_pipes_def closed_def handed_over_def)
  have 1: "\<forall>n. Handle n \<in> insert (Handle (fresh a)) (set (created_events (trace a))) \<union> set (created_pipes (trace a)) \<longrightarrow> n < Suc (fresh a)"
    using lt by auto
  have 2: "\<forall>n. Handle n \<in> insert (Handle (fresh a)) (set (created_events (trace a))) \<longrightarrow> Handle n \<notin> set (created_pipes (trace a))"
    using d new(2) by auto
  have 3: "set (closed (trace a)) \<inter> insert (Handle (fresh a)) evs = {}"
    using d nc by auto
  have 4: "\<forall>n. Handle n \<in> insert (Handle (fresh a)) (set (created_events (trace a)))
              \<longrightarrow> Handle n \<in> set (closed (trace a)) \<or> Handle n \<in> insert (Handle (fresh a)) evs \<or> Handle n = close_event a"
    using d by auto
  have 5: "insert (Handle (fresh a)) evs \<subseteq> insert (Handle (fresh a)) (set (created_events (trace a)))"
    "close_event a \<notin> insert (Handle (fresh a)) evs"
    using d ne by auto
  have 6: "\<forall>n. close_event a = Handle n \<longrightarrow> Handle n \<in> insert (Handle (fresh a)) (set (created_events (trace a)))"
    using d by auto
  show ?thesis
    unfolding owned_def tr fr same
    apply (simp only: created_events_append created_pipes_append closed_append
        handed_over_append l append_Nil2 set_append list.set Un_insert_right Un_empty_right)
    using 1 2 3 4 5 6 d by blast
qed

lemma owned_create_event_failed:
  assumes o: "owned evs a"
    and tr: "trace a' = trace a @ [A_CreateEvent m i NULL]"
    and same: "fresh a' = fresh a" "next_pipe a' = next_pipe a" "close_event a' = close_event a"
  shows "owned evs a'"
proof -
  note d = o[unfolded owned_def]
  have l: "created_events [A_CreateEvent m i NULL] = [NULL]"
    "created_pipes [A_CreateEvent m i NULL] = []"
    "closed [A_CreateEvent m i NULL] = []"
    "handed_over [A_CreateEvent m i NULL] = []"
    by (simp_all add: created_events_def created_pipes_def closed_def handed_over_def)
  show ?thesis
    unfolding owned_def tr same
    apply (simp only: created_events_append created_pipes_append closed_append
        handed_over_append l append_Nil2 set_append list.set Un_insert_right Un_empty_right)
    using d by blast
qed

lemma owned_close:
  assumes o: "owned evs a" and h: "h \<in> evs"
    and tr: "trace a' = trace a @ [A_CloseHandle h]"
    and same: "fresh a' = fresh a" "next_pipe a' = next_pipe a" "close_event a' = close_event a"
  shows "owned (evs - {h}) a'"
proof -
  note d = o[unfolded owned_def]
  have l: "created_events [A_CloseHandle h] = []"
    "created_pipes [A_CloseHandle h] = []"
    "closed [A_CloseHandle h] = [h]"
    "handed_over [A_CloseHandle h] = []"
    by (simp_all add: created_events_def created_pipes_def closed_def handed_over_def)
  have hn: "h \<notin> set (closed (trace a))" "h \<noteq> NULL" "h \<noteq> INVALID_HANDLE_VALUE"
    "h \<in> set (created_events (trace a))" "h \<noteq> close_event a"
    using d h by auto
  have 1: "distinct (closed (trace a) @ [h])" using d hn by simp
  have 2: "NULL \<notin> set (closed (trace a) @ [h])" "INVALID_HANDLE_VALUE \<notin> set (closed (trace a) @ [h])"
    "set (closed (trace a) @ [h]) \<subseteq> set (created_events (trace a))"
    "set (closed (trace a) @ [h]) \<inter> (evs - {h}) = {}"
    "close_event a \<notin> set (closed (trace a) @ [h])"
    using d hn by auto
  have 3: "\<forall>n. Handle n \<in> set (created_events (trace a))
        \<longrightarrow> Handle n \<in> set (closed (trace a) @ [h]) \<or> Handle n \<in> evs - {h} \<or> Handle n = close_event a"
    using d by auto
  have 4: "evs - {h} \<subseteq> set (created_events (trace a))" "NULL \<notin> evs - {h}"
    "INVALID_HANDLE_VALUE \<notin> evs - {h}" "close_event a \<notin> evs - {h}"
    using d by auto
  show ?thesis
    unfolding owned_def tr same
    apply (simp only: created_events_append created_pipes_append closed_append
        handed_over_append l append_Nil2)
    using 1 2 3 4 d by blast
qed


lemma owned_CloseHandle:
  "owned evs a \<Longrightarrow> h \<in> evs \<Longrightarrow> owned (evs - {h}) (CloseHandle h a)"
  by (rule owned_close[where a=a]) (simp_all add: CloseHandle_def emit_def)

lemma leave_scope_owned:
  assumes "owned {conn_event l, write_event l} (snd x)" "conn_event l \<noteq> write_event l"
    "\<And>l'. fst x \<noteq> Blocked l'"
  shows "owned {} (snd (leave_scope l x))"
proof -
  have 1: "owned ({conn_event l, write_event l} - {write_event l}) (CloseHandle (write_event l) (snd x))"
    using assms(1) by (intro owned_CloseHandle) simp_all
  have e: "{conn_event l, write_event l} - {write_event l} = {conn_event l}"
    using assms(2) by auto
  have 2: "owned ({conn_event l} - {conn_event l}) (CloseHandle (conn_event l) (CloseHandle (write_event l) (snd x)))"
    using 1 unfolding e by (intro owned_CloseHandle) simp_all
  have "snd (leave_scope l x) = CloseHandle (conn_event l) (CloseHandle (write_event l) (snd x))"
    using assms(3) by (cases x; cases "fst x") (auto simp: leave_scope_def ScopeGuard_def)
  then show ?thesis using 2 by simp
qed

lemma leave_scope_blocked:
  "fst x = Blocked l' \<Longrightarrow> leave_scope l x = x"
  by (cases x) (auto simp: leave_scope_def)

lemma owned_started:
  assumes "owned {} a"
  shows "owned {Handle (fresh a), Handle (Suc (fresh a))} (started a)"
proof -
  let ?a1 = "a\<lparr>fresh := Suc (fresh a), trace := trace a @ [A_CreateEvent True True (Handle (fresh a))]\<rparr>"
  have 1: "owned (insert (Handle (fresh a)) {}) ?a1"
    using assms by (rule owned_create_event[where m=True and i=True]) simp_all
  have 2: "owned (insert (Handle (fresh ?a1)) (insert (Handle (fresh a)) {})) (started a)"
    using 1 by (rule owned_create_event[where m=False and i=False]) (simp_all add: started_def)
  have "insert (Handle (fresh ?a1)) (insert (Handle (fresh a)) {}) = {Handle (fresh a), Handle (Suc (fresh a))}"
    by auto
  then show ?thesis using 2 by simp
qed

lemma try_block_owned:
  assumes o: "owned {} a"
  shows "case fst (try_block env a) of
           Blocked l \<Rightarrow> owned {conn_event l, write_event l} (snd (try_block env a)) \<and>
                        conn_event l \<noteq> write_event l
         | _ \<Rightarrow> owned {} (snd (try_block env a))"
proof (cases "success (create_conn_event env)")
  case False
  have "owned {} (a\<lparr>trace := trace a @ [A_CreateEvent True True NULL]\<rparr>)"
    using o by (rule owned_create_event_failed[where m=True and i=True]) simp_all
  then show ?thesis using try_block_no_conn_event[OF False, of a] by simp
next
  case c: True
  show ?thesis
  proof (cases "success (create_write_event env)")
    case False
    let ?a1 = "a\<lparr>fresh := Suc (fresh a), trace := trace a @ [A_CreateEvent True True (Handle (fresh a))]\<rparr>"
    let ?a2 = "?a1\<lparr>trace := trace ?a1 @ [A_CreateEvent False False NULL]\<rparr>"
    let ?a3 = "?a2\<lparr>trace := trace ?a2 @ [A_CloseHandle (Handle (fresh a))]\<rparr>"
    have 1: "owned (insert (Handle (fresh a)) {}) ?a1"
      using o by (rule owned_create_event[where m=True and i=True]) simp_all
    have 2: "owned (insert (Handle (fresh a)) {}) ?a2"
      using 1 by (rule owned_create_event_failed[where m=False and i=False]) simp_all
    have 3: "owned (insert (Handle (fresh a)) {} - {Handle (fresh a)}) ?a3"
      using 2 by (rule owned_close) simp_all
    have "snd (try_block env a) = ?a3" "fst (try_block env a) = Raised (failure ''CreateEvent (write event) failed GLE = '' (gle (create_write_event env)))"
      using try_block_no_write_event[OF c False, of a] by simp_all
    then show ?thesis using 3 by simp
  next
    case True
    let ?l = "first_locals a"
    let ?x = "connect_and_loop ?l (first_connect env) (iterations env) (started a)"
    have t: "try_block env a = leave_scope ?l ?x" using try_block_events[OF c True] .
    have l: "conn_event ?l = Handle (fresh a)" "write_event ?l = Handle (Suc (fresh a))"
      by (simp_all add: first_locals_def)
    have ox: "owned {conn_event ?l, write_event ?l} (snd ?x)"
      unfolding l using owned_connect_and_loop[OF owned_started[OF o]] .
    have ne: "conn_event ?l \<noteq> write_event ?l" unfolding l by simp
    show ?thesis
    proof (cases "\<exists>l'. fst ?x = Blocked l'")
      case True
      then obtain l' where b: "fst ?x = Blocked l'" by blast
      then have "conn_event l' = conn_event ?l" "write_event l' = write_event ?l"
        using connect_and_loop_locals by blast+
      then show ?thesis using b ox ne leave_scope_blocked[OF b] t by simp
    next
      case False
      then have nb: "\<And>l'. fst ?x \<noteq> Blocked l'" by blast
      have "owned {} (snd (leave_scope ?l ?x))" using leave_scope_owned[OF ox ne nb] .
      moreover have "fst (leave_scope ?l ?x) = fst ?x" by (rule fst_leave_scope)
      ultimately show ?thesis using t nb by (cases "fst ?x") auto
    qed
  qed
qed

lemma after_try_owned:
  "owned evs (snd x) \<Longrightarrow> owned evs (snd (after_try r x))"
  by (cases x; cases "fst x")
     (auto simp: after_try_def neutral_def created_events_def created_pipes_def closed_def
        handed_over_def intro!: owned_emit_neutral)

lemma after_try_exit:
  "fst (after_try r x) = Suspended l \<longleftrightarrow> fst x = Blocked l"
  by (cases x; cases "fst x") (auto simp: after_try_def split: cb_result.splits)

lemma well_owned_Listen:
  assumes w: "well_owned a" and l: "Listen env a = Some a'"
  shows "well_owned a'"
proof -
  have nt: "listen_thread a = No_thread" using l by (auto simp: Listen_def split: if_splits)
  then have o: "owned {} a" using w by (simp add: well_owned_def thread_events_def)
  note tb = try_block_owned[OF o, of env]
  obtain ex a1 where r: "LinstenInThread env a = (ex, a1)" by fastforce
  show ?thesis
  proof (cases "fst (try_block env a)")
    case (Blocked l')
    then have "owned {conn_event l', write_event l'} (snd (try_block env a))" "conn_event l' \<noteq> write_event l'"
      using tb by simp_all
    then have "owned {conn_event l', write_event l'} a1"
      using after_try_owned[of _ "try_block env a" "on_exception env"] r by (simp add: LinstenInThread_def)
    moreover have "ex = Suspended l'"
      using after_try_exit[of "on_exception env" "try_block env a" l'] Blocked r
      by (simp add: LinstenInThread_def)
    ultimately show ?thesis
      using l nt r \<open>conn_event l' \<noteq> write_event l'\<close>
      by (auto simp: Listen_def well_owned_def thread_events_def)
  next
    case Stopped
    then have "owned {} (snd (try_block env a))" using tb by simp
    then have "owned {} a1"
      using after_try_owned[of _ "try_block env a" "on_exception env"] r by (simp add: LinstenInThread_def)
    moreover have "\<And>l'. ex \<noteq> Suspended l'"
      using after_try_exit[of "on_exception env" "try_block env a"] Stopped r
      by (simp add: LinstenInThread_def)
    ultimately show ?thesis
      using l nt r
      by (cases ex) (auto simp: Listen_def well_owned_def thread_events_def)
  next
    case (Raised e)
    then have "owned {} (snd (try_block env a))" using tb by simp
    then have "owned {} a1"
      using after_try_owned[of _ "try_block env a" "on_exception env"] r by (simp add: LinstenInThread_def)
    moreover have "\<And>l'. ex \<noteq> Suspended l'"
      using after_try_exit[of "on_exception env" "try_block env a"] Raised r
      by (simp add: LinstenInThread_def)
    ultimately show ?thesis
      using l nt r
      by (cases ex) (auto simp: Listen_def well_owned_def thread_events_def)
  qed
qed


lemma well_owned_Stop:
  assumes w: "well_owned a" and st: "Stop e a = Some a'"
  shows "owned {} a'"
proof -
  obtain b a1 where se: "SetEvent (close_event a) (set_close_event e) a = (b, a1)" by fastforce
  let ?a2 = "DisconnectNamedPipe (next_pipe a1) a1"
  have a1: "a1 = emit (A_SetEvent (close_event a) (success (set_close_event e)))
             (a\<lparr>stop_signaled := (stop_signaled a \<or> success (set_close_event e))\<rparr>)"
    using se by (auto simp: SetEvent_def)
  have lt: "listen_thread ?a2 = listen_thread a"
    using a1 by (simp add: DisconnectNamedPipe_def emit_def)
  have o2: "owned evs a \<Longrightarrow> owned evs ?a2" for evs
    unfolding a1 DisconnectNamedPipe_def
    by (intro owned_emit_neutral)
       (simp_all add: neutral_def created_events_def created_pipes_def closed_def handed_over_def)
  show ?thesis
  proof (cases "listen_thread a")
    case No_thread
    then have "a' = ?a2" using st se lt by (simp add: Stop_def)
    then show ?thesis using o2[of "{}"] w No_thread by (simp add: well_owned_def thread_events_def)
  next
    case Finished
    then have "a' = emit A_join (?a2\<lparr>listen_thread := No_thread\<rparr>)"
      using st se lt by (simp add: Stop_def join_def)
    moreover have "owned {} ?a2"
      using o2[of "{}"] w Finished by (simp add: well_owned_def thread_events_def)
    ultimately show ?thesis
      by (simp add: owned_emit_neutral neutral_def created_events_def created_pipes_def
          closed_def handed_over_def)
  next
    case (Waiting l)
    let ?x = "loop l (wakeups e) ?a2"
    let ?y = "after_try (on_exception_joined e) (leave_scope l ?x)"
    have j: "join e ?a2 = Some a'" using st se lt Waiting by (simp add: Stop_def)
    then have r: "fst ?y = Returned" and a': "a' = emit A_join ((snd ?y)\<lparr>listen_thread := No_thread\<rparr>)"
      using lt Waiting by (auto simp: join_def split: prod.splits thread_exit.splits)
    have nb: "\<And>l'. fst ?x \<noteq> Blocked l'"
    proof
      fix l' assume "fst ?x = Blocked l'"
      then have "fst (leave_scope l ?x) = Blocked l'" by (simp add: fst_leave_scope)
      then have "fst ?y = Suspended l'" using after_try_exit by blast
      then show False using r by simp
    qed
    have "owned {conn_event l, write_event l} ?a2" "conn_event l \<noteq> write_event l"
      using o2 w Waiting by (simp_all add: well_owned_def thread_events_def)
    then have "owned {} (snd (leave_scope l ?x))"
      using leave_scope_owned[of l ?x] owned_loop nb by blast
    then have "owned {} (snd ?y)" by (rule after_try_owned)
    then show ?thesis
      unfolding a'
      by (simp add: owned_emit_neutral neutral_def created_events_def created_pipes_def
          closed_def handed_over_def)
  qed
qed

lemma Acceptor_fields:
  "trace (Acceptor endpoint r) =
     [A_CreateEvent False False (if success r then Handle 0 else NULL)]"
  "fresh (Acceptor endpoint r) = (if success r then 1 else 0)"
  "close_event (Acceptor endpoint r) = (if success r then Handle 0 else NULL)"
  "next_pipe (Acceptor endpoint r) = NULL"
  "listen_thread (Acceptor endpoint r) = No_thread"
  by (simp_all add: Acceptor_def CreateEvent_def emit_def Let_def)

lemma well_owned_Acceptor: "well_owned (Acceptor endpoint r)"
  unfolding well_owned_def owned_def Acceptor_fields
  by (simp add: thread_events_def created_events_def created_pipes_def closed_def handed_over_def)

lemma well_owned_perform:
  assumes "well_owned a" "perform c a = Some a'"
  shows "well_owned a'"
proof (cases c)
  case (Call_Listen env)
  then show ?thesis using assms well_owned_Listen by simp
next
  case (Call_Stop env)
  then have "owned {} a'" "listen_thread a' = No_thread"
    using assms well_owned_Stop Stop_joins by simp_all
  then show ?thesis by (simp add: well_owned_def thread_events_def)
qed (use assms in \<open>auto simp: well_owned_def SetNewConnectionCallback_def
      SetExceptionCallback_def MoveIOFunctionToAlertableThread_def\<close>)

lemma well_owned_calls:
  "well_owned a \<Longrightarrow> calls cs a = Some a' \<Longrightarrow> well_owned a'"
proof (induction cs arbitrary: a)
  case Nil
  then show ?case by simp
next
  case (Cons c cs)
  then show ?case using well_owned_perform by (auto split: option.splits)
qed

lemma created_event_mem:
  "A_CreateEvent m i h \<in> set tr \<Longrightarrow> h \<in> set (created_events tr)"
  by (induction tr) (auto simp: created_events_def)

lemma handed_over_mem:
  "A_new_connection_callback p w Returns \<in> set tr \<Longrightarrow> p \<in> set (handed_over tr)"
  by (induction tr) (auto simp: handed_over_def)

lemma distinct_count_le_1: "distinct xs \<Longrightarrow> count_list xs x \<le> 1"
  by (induction xs) auto

lemmas life_defs = lifetime_def destroy_def one_client_def unserved_def served_def
  closed_def

subsection \<open>A run that waits, and the wake-up that ends it or not\<close>

lemma loop_append:
  "fst (loop l pre a) = Blocked l' \<Longrightarrow> loop l (pre @ its) a = loop l' its (snd (loop l pre a))"
proof (induction pre arbitrary: l a)
  case Nil
  then show ?case by simp
next
  case (Cons it pre)
  obtain r a1 where s: "loop_step l it a = (r, a1)" by fastforce
  show ?case
  proof (cases r)
    case (Continue p)
    then show ?thesis using Cons.IH[of "l\<lparr>pedding := p\<rparr>" a1] Cons.prems s by simp
  qed (use s Cons.prems in auto)
qed

lemma connect_and_loop_append:
  "fst (connect_and_loop l0 e pre a) = Blocked l \<Longrightarrow>
   connect_and_loop l0 e (pre @ its) a = loop l its (snd (connect_and_loop l0 e pre a))"
  using loop_append
  by (auto simp: connect_and_loop_def split: prod.splits sum.splits)

lemma try_block_resume:
  assumes "fst (try_block (env\<lparr>iterations := pre\<rparr>) a) = Blocked l"
  shows "try_block (env\<lparr>iterations := pre @ its\<rparr>) a =
           leave_scope (first_locals a) (loop l its (snd (try_block (env\<lparr>iterations := pre\<rparr>) a)))"
proof -
  let ?e = "env\<lparr>iterations := pre\<rparr>"
  have c: "success (create_conn_event env)"
    using assms try_block_no_conn_event[of ?e a] by (cases "success (create_conn_event env)") auto
  have w: "success (create_write_event env)"
    using assms c try_block_no_write_event[of ?e a]
    by (cases "success (create_write_event env)") auto
  let ?x = "connect_and_loop (first_locals a) (first_connect env) pre (started a)"
  have t: "try_block ?e a = leave_scope (first_locals a) ?x"
    using try_block_events[of ?e a] c w by simp
  then have b: "fst ?x = Blocked l" using assms by (simp add: fst_leave_scope)
  then have x: "try_block ?e a = ?x" using t leave_scope_blocked by simp
  have "try_block (env\<lparr>iterations := pre @ its\<rparr>) a =
      leave_scope (first_locals a)
        (connect_and_loop (first_locals a) (first_connect env) (pre @ its) (started a))"
    using try_block_events[of "env\<lparr>iterations := pre @ its\<rparr>" a] c w by simp
  then show ?thesis using connect_and_loop_append[OF b] x by simp
qed

lemma leave_scope_Raised:
  "leave_scope (first_locals a) (Raised x, s) = (Raised x, unwound a s)"
  by (simp add: leave_scope_def ScopeGuard_def first_locals_def unwound_def)

lemma step_result_fetch_fails:
  assumes "wait_ret (wait it) = WAIT_OBJECT_0" "pedding l" "\<not> success (overlapped it)"
  shows "loop_step l it s =
     (Throw (failure ''ConnectNamedPipe failed GLE = '' (gle (overlapped it))),
      s\<lparr>trace := trace s @ [A_WaitForMultipleObjectsEx (events l) WAIT_OBJECT_0,
                              A_GetOverlappedResult (next_pipe s) False]\<rparr>)"
  using assms
  by (simp add: loop_step_def connect_ready_def WaitForMultipleObjectsEx_def
      GetOverlappedResult_def emit_def)

lemma step_unexpected_wait:
  assumes "wait_ret (wait it) \<noteq> WAIT_OBJECT_0" "wait_ret (wait it) \<noteq> WAIT_OBJECT_0 + 1"
    "wait_ret (wait it) \<noteq> WAIT_OBJECT_0 + 2" "wait_ret (wait it) \<noteq> WAIT_IO_COMPLETION"
  shows "loop_step l it s =
     (Throw (failure ''Unexpected error GLE = '' (wait_gle (wait it))),
      s\<lparr>trace := trace s @ [A_WaitForMultipleObjectsEx (events l) (wait_ret (wait it))]\<rparr>)"
  using assms
  by (simp add: loop_step_def WaitForMultipleObjectsEx_def emit_def)

lemma step_rearm_fails:
  assumes "wait_ret (wait it) = WAIT_OBJECT_0" "pedding l \<longrightarrow> success (overlapped it)"
    "new_connection_callback s \<longrightarrow> on_new_connection it = Returns"
    "fst (CreateConnectInstance (rearm it) s) = Inl x"
  shows "loop_step l it s = (Throw x, snd (CreateConnectInstance (rearm it) (delivered l it s)))"
proof -
  have "fst (CreateConnectInstance (rearm it) (delivered l it s)) = Inl x"
    using assms(4) by (simp add: cci_result)
  then show ?thesis
    using accept_step[OF assms(1,2), of s] assms(3)
    by (auto split: prod.splits sum.splits)
qed

lemma step_rearm_succeeds:
  assumes "wait_ret (wait it) = WAIT_OBJECT_0" "pedding l \<longrightarrow> success (overlapped it)"
    "new_connection_callback s \<longrightarrow> on_new_connection it = Returns"
    "fst (CreateConnectInstance (rearm it) s) = Inr p"
  shows "loop_step l it s = (Continue p, snd (CreateConnectInstance (rearm it) (delivered l it s)))"
proof -
  have "fst (CreateConnectInstance (rearm it) (delivered l it s)) = Inr p"
    using assms(4) by (simp add: cci_result)
  then show ?thesis
    using accept_step[OF assms(1,2), of s] assms(3)
    by (auto split: prod.splits sum.splits)
qed

lemma run_raises:
  assumes "fst (try_block (env\<lparr>iterations := pre\<rparr>) a) = Blocked l"
    and "loop_step l it (snd (try_block (env\<lparr>iterations := pre\<rparr>) a)) = (Throw x, s')"
  shows "try_block (env\<lparr>iterations := pre @ it # rest\<rparr>) a = (Raised x, unwound a s')"
  using try_block_resume[OF assms(1), of "it # rest"] assms(2)
  by (simp add: leave_scope_Raised)

lemma run_waits_again:
  assumes "fst (try_block (env\<lparr>iterations := pre\<rparr>) a) = Blocked l"
    and "loop_step l it (snd (try_block (env\<lparr>iterations := pre\<rparr>) a)) = (Continue p, s')"
  shows "try_block (env\<lparr>iterations := pre @ [it]\<rparr>) a = (Blocked (l\<lparr>pedding := p\<rparr>), s')"
  using try_block_resume[OF assms(1), of "[it]"] assms(2)
  by (simp add: leave_scope_def)

lemma first_connect_raises:
  assumes "success (create_conn_event env)" "success (create_write_event env)"
    "fst (CreateConnectInstance (first_connect env) (started a)) = Inl x"
  shows "try_block env a =
     (Raised x, unwound a (snd (CreateConnectInstance (first_connect env) (started a))))"
  using assms try_block_events[OF assms(1,2), of a]
  by (cases "CreateConnectInstance (first_connect env) (started a)")
     (simp add: connect_and_loop_def leave_scope_Raised)


lemmas error_defs = no_conn_event_def no_first_pipe_def fetch_fails_def rearm_refused_def
  armed_def started_def first_locals_def unwound_def failure_def to_string.simps digit_def
  delivered_def

section \<open>The claims\<close>

text \<open>
  C1 (amended). With an exception callback registered, a run of \<^verbatim>\<open>LinstenInThread\<close> calls
  it exactly once, as its last action and with the exception caught, when the loop is
  left by an error; it does not call it when the loop is left by the stop signal (the
  \<^verbatim>\<open>return\<close> inside the \<^verbatim>\<open>try\<close> leaves the function), nor while the thread waits.
\<close>

theorem exception_callback_on_error_exit_only:
  assumes "exception_callback a"
  shows "(case fst (try_block env a) of
            Raised e \<Rightarrow>
              trace (snd (LinstenInThread env a)) =
                trace (snd (try_block env a)) @ [A_exception_callback (Some e) (on_exception env)]
              \<and> exception_calls (performed a (snd (LinstenInThread env a))) = [Some e]
          | Stopped \<Rightarrow> exception_calls (performed a (snd (LinstenInThread env a))) = []
          | Blocked l \<Rightarrow> exception_calls (performed a (snd (LinstenInThread env a))) = [])"
proof -
  obtain r a' where t: "try_block env a = (r, a')" by fastforce
  obtain xs where xs: "trace a' = trace a @ xs" "exception_calls xs = []" "exception_callback a'"
    using try_block_trace[of env a] t assms by auto
  show ?thesis
    using t xs
    by (cases r) (auto simp: LinstenInThread_def after_try_def emit_def performed_def exception_calls_def)
qed

text \<open>The theorem at a run that ends by an unexpected result of the wait.\<close>

theorem exception_callback_witness:
  "exception_callback svc \<and> fst (try_block (run_of [wake 7]) svc) = Raised (ConnectionExcepton ''Unexpected error GLE = 0'')
   \<and> exception_calls (performed svc (snd (LinstenInThread (run_of [wake 7]) svc))) = [Some (ConnectionExcepton ''Unexpected error GLE = 0'')]"
proof -
  have h: "exception_callback svc" by (simp add: run_defs)
  have r: "fst (try_block (run_of [wake 7]) svc) = Raised (ConnectionExcepton ''Unexpected error GLE = 0'')"
    by (simp add: run_defs failure_def to_string.simps digit_def)
  show ?thesis using h r exception_callback_on_error_exit_only[OF h, of "run_of [wake 7]"] by simp
qed

text \<open>
  C1 as stated fails: the callback is registered, the loop is left by the stop signal,
  and the callback was not called with an empty value: it was not called.
\<close>

theorem exception_callback_not_called_on_stop:
  "exception_callback svc \<and> fst (try_block (run_of [wake (WAIT_OBJECT_0 + 2)]) svc) = Stopped
   \<and> fst (LinstenInThread (run_of [wake (WAIT_OBJECT_0 + 2)]) svc) = Returned
   \<and> exception_calls (trace (snd (LinstenInThread (run_of [wake (WAIT_OBJECT_0 + 2)]) svc))) = []"
  by (simp add: run_defs)

text \<open>
  C7. Every error the Acceptor detects ends the run at once, and nothing is tried again.
  A failed creation of the connect or of the write event throws before the loop. A pipe
  that cannot be created, and a connect that reports success or a code other than
  pending or already connected, make \<^verbatim>\<open>CreateConnectInstance\<close> throw after that call. When
  the first \<^verbatim>\<open>CreateConnectInstance\<close> throws, and when a run that waits (after any
  wake-ups) meets a result that cannot be fetched, an unexpected result of the wait, or a
  \<^verbatim>\<open>CreateConnectInstance\<close> that throws, the \<^verbatim>\<open>try\<close> block ends with that exception: after
  the failing call only the two guards run, and the wake-ups that are left are not read.
  The exception then goes to the exception callback, once and as the last action, if the
  callback is registered; if it is not, no callback is called and the thread function
  returns with the state the \<^verbatim>\<open>try\<close> block left.
\<close>

theorem first_error_ends_the_loop:
  "(\<not> success (create_conn_event env) \<longrightarrow>
      try_block env a =
        (Raised (failure ''CreateEvent (connect event) failed GLE = '' (gle (create_conn_event env))),
         a\<lparr>trace := trace a @ [A_CreateEvent True True NULL]\<rparr>))
   \<and> (success (create_conn_event env) \<and> \<not> success (create_write_event env) \<longrightarrow>
      try_block env a =
        (Raised (failure ''CreateEvent (write event) failed GLE = '' (gle (create_write_event env))),
         a\<lparr>fresh := Suc (fresh a),
           trace := trace a @ [A_CreateEvent True True (Handle (fresh a)),
                               A_CreateEvent False False NULL,
                               A_CloseHandle (Handle (fresh a))]\<rparr>))
   \<and> (\<not> success (create_pipe e) \<longrightarrow>
      fst (CreateConnectInstance e b) =
        Inl (failure ''CreateNamedPipe failed GLE = '' (gle (create_pipe e))) \<and>
      performed b (snd (CreateConnectInstance e b)) =
        [A_CreateNamedPipe (c_str (pipe_name b)) INVALID_HANDLE_VALUE])
   \<and> (success (create_pipe e) \<and>
        (success (connect_pipe e) \<or>
         gle (connect_pipe e) \<noteq> ERROR_IO_PENDING \<and> gle (connect_pipe e) \<noteq> ERROR_PIPE_CONNECTED) \<longrightarrow>
      fst (CreateConnectInstance e b) =
        Inl (failure ''ConnectNamedPipe failed GLE = '' (gle (connect_pipe e))) \<and>
      performed b (snd (CreateConnectInstance e b)) =
        [A_CreateNamedPipe (c_str (pipe_name b)) (Handle (fresh b)),
         A_ConnectNamedPipe (Handle (fresh b)) (hEvent b) (success (connect_pipe e))])
   \<and> (\<forall>x. success (create_conn_event env) \<and> success (create_write_event env) \<and>
          fst (CreateConnectInstance (first_connect env) (started a)) = Inl x \<longrightarrow>
      try_block env a =
        (Raised x, unwound a (snd (CreateConnectInstance (first_connect env) (started a)))))
   \<and> (\<forall>l s. try_block (env\<lparr>iterations := pre\<rparr>) a = (Blocked l, s) \<longrightarrow>
        (wait_ret (wait it) = WAIT_OBJECT_0 \<and> pedding l \<and> \<not> success (overlapped it) \<longrightarrow>
           try_block (env\<lparr>iterations := pre @ it # rest\<rparr>) a =
             (Raised (failure ''ConnectNamedPipe failed GLE = '' (gle (overlapped it))),
              unwound a
                (s\<lparr>trace := trace s @ [A_WaitForMultipleObjectsEx (events l) WAIT_OBJECT_0,
                                        A_GetOverlappedResult (next_pipe s) False]\<rparr>))) \<and>
        (wait_ret (wait it) \<noteq> WAIT_OBJECT_0 \<and> wait_ret (wait it) \<noteq> WAIT_OBJECT_0 + 1 \<and>
         wait_ret (wait it) \<noteq> WAIT_OBJECT_0 + 2 \<and> wait_ret (wait it) \<noteq> WAIT_IO_COMPLETION \<longrightarrow>
           try_block (env\<lparr>iterations := pre @ it # rest\<rparr>) a =
             (Raised (failure ''Unexpected error GLE = '' (wait_gle (wait it))),
              unwound a
                (s\<lparr>trace := trace s @
                     [A_WaitForMultipleObjectsEx (events l) (wait_ret (wait it))]\<rparr>))) \<and>
        (\<forall>x. wait_ret (wait it) = WAIT_OBJECT_0 \<and> (pedding l \<longrightarrow> success (overlapped it)) \<and>
              (new_connection_callback s \<longrightarrow> on_new_connection it = Returns) \<and>
              fst (CreateConnectInstance (rearm it) s) = Inl x \<longrightarrow>
           try_block (env\<lparr>iterations := pre @ it # rest\<rparr>) a =
             (Raised x, unwound a (snd (CreateConnectInstance (rearm it) (delivered l it s))))))
   \<and> (\<forall>x. fst (try_block env a) = Raised x \<longrightarrow>
        LinstenInThread (env\<lparr>iterations := iterations env @ rest\<rparr>) a = LinstenInThread env a \<and>
        exception_calls (performed a (snd (LinstenInThread env a))) =
          (if exception_callback a then [Some x] else []) \<and>
        (exception_callback a \<longrightarrow>
           trace (snd (LinstenInThread env a)) =
             trace (snd (try_block env a)) @ [A_exception_callback (Some x) (on_exception env)]) \<and>
        (\<not> exception_callback a \<longrightarrow>
           LinstenInThread env a = (Returned, snd (try_block env a))))"
proof -
  have 1: "try_block env a =
        (Raised (failure ''CreateEvent (connect event) failed GLE = '' (gle (create_conn_event env))),
         a\<lparr>trace := trace a @ [A_CreateEvent True True NULL]\<rparr>)"
    if "\<not> success (create_conn_event env)"
    using that by (rule try_block_no_conn_event)
  have 2: "try_block env a =
        (Raised (failure ''CreateEvent (write event) failed GLE = '' (gle (create_write_event env))),
         a\<lparr>fresh := Suc (fresh a),
           trace := trace a @ [A_CreateEvent True True (Handle (fresh a)),
                               A_CreateEvent False False NULL,
                               A_CloseHandle (Handle (fresh a))]\<rparr>)"
    if "success (create_conn_event env) \<and> \<not> success (create_write_event env)"
    using that try_block_no_write_event by blast
  have 3: "fst (CreateConnectInstance e b) =
        Inl (failure ''CreateNamedPipe failed GLE = '' (gle (create_pipe e))) \<and>
      performed b (snd (CreateConnectInstance e b)) =
        [A_CreateNamedPipe (c_str (pipe_name b)) INVALID_HANDLE_VALUE]"
    if "\<not> success (create_pipe e)"
    using that unfolding cci_post cci_result by (simp add: performed_def)
  have 4: "fst (CreateConnectInstance e b) =
        Inl (failure ''ConnectNamedPipe failed GLE = '' (gle (connect_pipe e))) \<and>
      performed b (snd (CreateConnectInstance e b)) =
        [A_CreateNamedPipe (c_str (pipe_name b)) (Handle (fresh b)),
         A_ConnectNamedPipe (Handle (fresh b)) (hEvent b) (success (connect_pipe e))]"
    if "success (create_pipe e) \<and>
        (success (connect_pipe e) \<or>
         gle (connect_pipe e) \<noteq> ERROR_IO_PENDING \<and> gle (connect_pipe e) \<noteq> ERROR_PIPE_CONNECTED)"
  proof -
    have "performed b (snd (CreateConnectInstance e b)) =
        [A_CreateNamedPipe (c_str (pipe_name b)) (Handle (fresh b)),
         A_ConnectNamedPipe (Handle (fresh b)) (hEvent b) (success (connect_pipe e))]"
      using that unfolding cci_post by (auto simp: performed_def)
    moreover have "fst (CreateConnectInstance e b) =
        Inl (failure ''ConnectNamedPipe failed GLE = '' (gle (connect_pipe e)))"
      using that unfolding cci_result by auto
    ultimately show ?thesis by blast
  qed
  have 5: "try_block env a =
        (Raised x, unwound a (snd (CreateConnectInstance (first_connect env) (started a))))"
    if "success (create_conn_event env) \<and> success (create_write_event env) \<and>
          fst (CreateConnectInstance (first_connect env) (started a)) = Inl x" for x
    using that first_connect_raises by blast
  have 6: "try_block (env\<lparr>iterations := pre @ it # rest\<rparr>) a =
             (Raised (failure ''ConnectNamedPipe failed GLE = '' (gle (overlapped it))),
              unwound a
                (s\<lparr>trace := trace s @ [A_WaitForMultipleObjectsEx (events l) WAIT_OBJECT_0,
                                        A_GetOverlappedResult (next_pipe s) False]\<rparr>))"
    if "try_block (env\<lparr>iterations := pre\<rparr>) a = (Blocked l, s)"
      and "wait_ret (wait it) = WAIT_OBJECT_0 \<and> pedding l \<and> \<not> success (overlapped it)" for l s
    using run_raises[where env=env and pre=pre and a=a and l=l and it=it and rest=rest]
      step_result_fetch_fails[of it l s] that by simp
  have 7: "try_block (env\<lparr>iterations := pre @ it # rest\<rparr>) a =
             (Raised (failure ''Unexpected error GLE = '' (wait_gle (wait it))),
              unwound a
                (s\<lparr>trace := trace s @
                     [A_WaitForMultipleObjectsEx (events l) (wait_ret (wait it))]\<rparr>))"
    if "try_block (env\<lparr>iterations := pre\<rparr>) a = (Blocked l, s)"
      and "wait_ret (wait it) \<noteq> WAIT_OBJECT_0 \<and> wait_ret (wait it) \<noteq> WAIT_OBJECT_0 + 1 \<and>
         wait_ret (wait it) \<noteq> WAIT_OBJECT_0 + 2 \<and> wait_ret (wait it) \<noteq> WAIT_IO_COMPLETION" for l s
    using run_raises[where env=env and pre=pre and a=a and l=l and it=it and rest=rest]
      step_unexpected_wait[of it l s] that by simp
  have 8: "try_block (env\<lparr>iterations := pre @ it # rest\<rparr>) a =
             (Raised x, unwound a (snd (CreateConnectInstance (rearm it) (delivered l it s))))"
    if "try_block (env\<lparr>iterations := pre\<rparr>) a = (Blocked l, s)"
      and "wait_ret (wait it) = WAIT_OBJECT_0 \<and> (pedding l \<longrightarrow> success (overlapped it)) \<and>
              (new_connection_callback s \<longrightarrow> on_new_connection it = Returns) \<and>
              fst (CreateConnectInstance (rearm it) s) = Inl x" for l s x
    using run_raises[where env=env and pre=pre and a=a and l=l and it=it and rest=rest]
      step_rearm_fails[of it l s x] that by simp
  have 9: "LinstenInThread (env\<lparr>iterations := iterations env @ rest\<rparr>) a = LinstenInThread env a \<and>
        exception_calls (performed a (snd (LinstenInThread env a))) =
          (if exception_callback a then [Some x] else []) \<and>
        (exception_callback a \<longrightarrow>
           trace (snd (LinstenInThread env a)) =
             trace (snd (try_block env a)) @ [A_exception_callback (Some x) (on_exception env)]) \<and>
        (\<not> exception_callback a \<longrightarrow>
           LinstenInThread env a = (Returned, snd (try_block env a)))"
    if r: "fst (try_block env a) = Raised x" for x
  proof -
    obtain ex a' where t: "try_block env a = (ex, a')" by fastforce
    obtain xs where xs: "trace a' = trace a @ xs" "exception_calls xs = []"
        "exception_callback a' = exception_callback a"
      using try_block_trace[of env a] t by auto
    have "LinstenInThread (env\<lparr>iterations := iterations env @ rest\<rparr>) a = LinstenInThread env a"
      using try_block_more[OF r] by (simp add: LinstenInThread_def)
    then show ?thesis
      using t xs r
      by (auto simp: LinstenInThread_def after_try_def emit_def performed_def exception_calls_def)
  qed
  have c6: "\<forall>l s. try_block (env\<lparr>iterations := pre\<rparr>) a = (Blocked l, s) \<longrightarrow>
        (wait_ret (wait it) = WAIT_OBJECT_0 \<and> pedding l \<and> \<not> success (overlapped it) \<longrightarrow>
           try_block (env\<lparr>iterations := pre @ it # rest\<rparr>) a =
             (Raised (failure ''ConnectNamedPipe failed GLE = '' (gle (overlapped it))),
              unwound a
                (s\<lparr>trace := trace s @ [A_WaitForMultipleObjectsEx (events l) WAIT_OBJECT_0,
                                        A_GetOverlappedResult (next_pipe s) False]\<rparr>))) \<and>
        (wait_ret (wait it) \<noteq> WAIT_OBJECT_0 \<and> wait_ret (wait it) \<noteq> WAIT_OBJECT_0 + 1 \<and>
         wait_ret (wait it) \<noteq> WAIT_OBJECT_0 + 2 \<and> wait_ret (wait it) \<noteq> WAIT_IO_COMPLETION \<longrightarrow>
           try_block (env\<lparr>iterations := pre @ it # rest\<rparr>) a =
             (Raised (failure ''Unexpected error GLE = '' (wait_gle (wait it))),
              unwound a
                (s\<lparr>trace := trace s @
                     [A_WaitForMultipleObjectsEx (events l) (wait_ret (wait it))]\<rparr>))) \<and>
        (\<forall>x. wait_ret (wait it) = WAIT_OBJECT_0 \<and> (pedding l \<longrightarrow> success (overlapped it)) \<and>
              (new_connection_callback s \<longrightarrow> on_new_connection it = Returns) \<and>
              fst (CreateConnectInstance (rearm it) s) = Inl x \<longrightarrow>
           try_block (env\<lparr>iterations := pre @ it # rest\<rparr>) a =
             (Raised x, unwound a (snd (CreateConnectInstance (rearm it) (delivered l it s)))))"
  proof (intro allI impI conjI)
    fix l s
    assume b: "try_block (env\<lparr>iterations := pre\<rparr>) a = (Blocked l, s)"
    {
      assume "wait_ret (wait it) = WAIT_OBJECT_0 \<and> pedding l \<and> \<not> success (overlapped it)"
      then show "try_block (env\<lparr>iterations := pre @ it # rest\<rparr>) a =
             (Raised (failure ''ConnectNamedPipe failed GLE = '' (gle (overlapped it))),
              unwound a
                (s\<lparr>trace := trace s @ [A_WaitForMultipleObjectsEx (events l) WAIT_OBJECT_0,
                                        A_GetOverlappedResult (next_pipe s) False]\<rparr>))"
        by (rule 6[OF b])
    next
      assume "wait_ret (wait it) \<noteq> WAIT_OBJECT_0 \<and> wait_ret (wait it) \<noteq> WAIT_OBJECT_0 + 1 \<and>
         wait_ret (wait it) \<noteq> WAIT_OBJECT_0 + 2 \<and> wait_ret (wait it) \<noteq> WAIT_IO_COMPLETION"
      then show "try_block (env\<lparr>iterations := pre @ it # rest\<rparr>) a =
             (Raised (failure ''Unexpected error GLE = '' (wait_gle (wait it))),
              unwound a
                (s\<lparr>trace := trace s @
                     [A_WaitForMultipleObjectsEx (events l) (wait_ret (wait it))]\<rparr>))"
        by (rule 7[OF b])
    next
      fix x
      assume "wait_ret (wait it) = WAIT_OBJECT_0 \<and> (pedding l \<longrightarrow> success (overlapped it)) \<and>
              (new_connection_callback s \<longrightarrow> on_new_connection it = Returns) \<and>
              fst (CreateConnectInstance (rearm it) s) = Inl x"
      then show "try_block (env\<lparr>iterations := pre @ it # rest\<rparr>) a =
             (Raised x, unwound a (snd (CreateConnectInstance (rearm it) (delivered l it s))))"
        by (rule 8[OF b])
    }
  qed
  show ?thesis
    apply (intro conjI)
          apply (rule impI, erule 1)
         apply (rule impI, erule 2)
        apply (rule impI, erule 3)
       apply (rule impI, erule 4)
      apply (rule allI, rule impI, erule 5)
     apply (rule c6)
    apply (rule allI, rule impI, erule 9)
    done
qed


text \<open>
  The theorem at runs of \<open>svc\<close> in which the connect event is not created, the first pipe is
  not created, the result of the first connect cannot be fetched, the connect on the next
  endpoint is refused, and the wait fails; and at a run without exception callback.
\<close>

theorem first_error_witness:
  "\<not> success (create_conn_event no_conn_event)
   \<and> try_block no_conn_event svc =
       (Raised (ConnectionExcepton ''CreateEvent (connect event) failed GLE = 8''),
        svc\<lparr>trace := trace svc @ [A_CreateEvent True True NULL]\<rparr>)
   \<and> try_block no_first_pipe svc =
       (Raised (ConnectionExcepton ''CreateNamedPipe failed GLE = 231''),
        unwound svc ((started svc)\<lparr>next_pipe := INVALID_HANDLE_VALUE,
           trace := trace (started svc) @
             [A_CreateNamedPipe (c_str (pipe_name svc)) INVALID_HANDLE_VALUE]\<rparr>))
   \<and> try_block (run_of []) svc = (Blocked ((first_locals svc)\<lparr>pedding := True\<rparr>), armed)
   \<and> try_block (run_of [fetch_fails, wake WAIT_OBJECT_0]) svc =
       (Raised (ConnectionExcepton ''ConnectNamedPipe failed GLE = 109''),
        unwound svc
          (armed\<lparr>trace := trace armed @
             [A_WaitForMultipleObjectsEx [Handle 1, Handle 2, Handle 0] WAIT_OBJECT_0,
              A_GetOverlappedResult (Handle 3) False]\<rparr>))
   \<and> try_block (run_of [rearm_refused, wake WAIT_OBJECT_0]) svc =
       (Raised (ConnectionExcepton ''ConnectNamedPipe failed GLE = 5''),
        unwound svc (snd (CreateConnectInstance (rearm rearm_refused)
                           (delivered ((first_locals svc)\<lparr>pedding := True\<rparr>) rearm_refused armed))))
   \<and> try_block (run_of [wake 7, wake WAIT_OBJECT_0]) svc =
       (Raised (ConnectionExcepton ''Unexpected error GLE = 0''),
        unwound svc
          (armed\<lparr>trace := trace armed @
             [A_WaitForMultipleObjectsEx [Handle 1, Handle 2, Handle 0] 7]\<rparr>))
   \<and> LinstenInThread (run_of [wake 7, wake WAIT_OBJECT_0]) svc = LinstenInThread (run_of [wake 7]) svc
   \<and> exception_calls (performed svc (snd (LinstenInThread (run_of [wake 7]) svc))) =
       [Some (ConnectionExcepton ''Unexpected error GLE = 0'')]
   \<and> LinstenInThread (run_of [wake 7]) (Acceptor ''svc-a'' ok) =
       (Returned, snd (try_block (run_of [wake 7]) (Acceptor ''svc-a'' ok)))"
proof -
  let ?l = "(first_locals svc)\<lparr>pedding := True\<rparr>"
  have i: "(run_of [])\<lparr>iterations := []\<rparr> = run_of []"
    "\<And>it rest. (run_of [])\<lparr>iterations := it # rest\<rparr> = run_of (it # rest)"
    "\<And>its rest. (run_of its)\<lparr>iterations := iterations (run_of its) @ rest\<rparr> = run_of (its @ rest)"
    by (simp_all add: run_of_def)
  have b: "try_block ((run_of [])\<lparr>iterations := []\<rparr>) svc = (Blocked ?l, armed)"
    by (simp add: run_defs error_defs)
  have f: "events ?l = [Handle 1, Handle 2, Handle 0]" "next_pipe armed = Handle 3" "pedding ?l"
    "exception_callback svc" "\<not> exception_callback (Acceptor ''svc-a'' ok)"
    "new_connection_callback armed"
    by (simp_all add: run_defs error_defs)
  have h1: "\<not> success (create_conn_event no_conn_event)"
    by (simp add: no_conn_event_def run_of_def err_def)
  have 1: "try_block no_conn_event svc =
       (Raised (ConnectionExcepton ''CreateEvent (connect event) failed GLE = 8''),
        svc\<lparr>trace := trace svc @ [A_CreateEvent True True NULL]\<rparr>)"
    using first_error_ends_the_loop[where env=no_conn_event and a=svc, THEN conjunct1] h1
    by (simp add: no_conn_event_def run_of_def err_def failure_def to_string.simps digit_def)
  have h2: "success (create_conn_event no_first_pipe) \<and> success (create_write_event no_first_pipe) \<and>
      fst (CreateConnectInstance (first_connect no_first_pipe) (started svc)) =
        Inl (ConnectionExcepton ''CreateNamedPipe failed GLE = 231'')"
    by (simp add: cci_result no_first_pipe_def run_of_def ok_def err_def connect_pending_def
        failure_def to_string.simps digit_def)
  have 2: "try_block no_first_pipe svc =
       (Raised (ConnectionExcepton ''CreateNamedPipe failed GLE = 231''),
        unwound svc (snd (CreateConnectInstance (first_connect no_first_pipe) (started svc))))"
    using first_error_ends_the_loop[where env=no_first_pipe and a=svc,
        THEN conjunct2, THEN conjunct2, THEN conjunct2, THEN conjunct2, THEN conjunct1,
        rule_format, OF h2] .
  have snd2: "snd (CreateConnectInstance (first_connect no_first_pipe) (started svc)) =
      (started svc)\<lparr>next_pipe := INVALID_HANDLE_VALUE,
           trace := trace (started svc) @
             [A_CreateNamedPipe (c_str (pipe_name svc)) INVALID_HANDLE_VALUE]\<rparr>"
    unfolding cci_post
    by (simp add: no_first_pipe_def run_of_def err_def connect_pending_def started_def)
  note t6 = first_error_ends_the_loop[where env="run_of []" and a=svc and pre="[]" and rest="[wake WAIT_OBJECT_0]",
        THEN conjunct2, THEN conjunct2, THEN conjunct2, THEN conjunct2, THEN conjunct2, THEN conjunct1,
        rule_format, OF b]
  have h3: "wait_ret (wait fetch_fails) = WAIT_OBJECT_0 \<and> pedding ?l \<and> \<not> success (overlapped fetch_fails)"
    using f(3) by (simp add: fetch_fails_def wake_def err_def)
  have 3: "try_block (run_of [fetch_fails, wake WAIT_OBJECT_0]) svc =
       (Raised (ConnectionExcepton ''ConnectNamedPipe failed GLE = 109''),
        unwound svc
          (armed\<lparr>trace := trace armed @
             [A_WaitForMultipleObjectsEx [Handle 1, Handle 2, Handle 0] WAIT_OBJECT_0,
              A_GetOverlappedResult (Handle 3) False]\<rparr>))"
    using t6[where it=fetch_fails, THEN conjunct1, rule_format, OF h3]
    by (simp add: i f fetch_fails_def wake_def err_def failure_def to_string.simps digit_def)
  have h4: "wait_ret (wait rearm_refused) = WAIT_OBJECT_0 \<and> (pedding ?l \<longrightarrow> success (overlapped rearm_refused)) \<and>
      (new_connection_callback armed \<longrightarrow> on_new_connection rearm_refused = Returns) \<and>
      fst (CreateConnectInstance (rearm rearm_refused) armed) =
        Inl (ConnectionExcepton ''ConnectNamedPipe failed GLE = 5'')"
    by (simp add: cci_result rearm_refused_def wake_def ok_def err_def connect_pending_def
        failure_def to_string.simps digit_def ERROR_IO_PENDING_def ERROR_PIPE_CONNECTED_def)
  have 4: "try_block (run_of [rearm_refused, wake WAIT_OBJECT_0]) svc =
       (Raised (ConnectionExcepton ''ConnectNamedPipe failed GLE = 5''),
        unwound svc (snd (CreateConnectInstance (rearm rearm_refused)
                           (delivered ?l rearm_refused armed))))"
    using t6[where it=rearm_refused, THEN conjunct2, THEN conjunct2, rule_format, OF h4]
    by (simp add: i)
  have h5: "wait_ret (wait (wake 7)) \<noteq> WAIT_OBJECT_0 \<and> wait_ret (wait (wake 7)) \<noteq> WAIT_OBJECT_0 + 1 \<and>
         wait_ret (wait (wake 7)) \<noteq> WAIT_OBJECT_0 + 2 \<and> wait_ret (wait (wake 7)) \<noteq> WAIT_IO_COMPLETION"
    by (simp add: wake_def WAIT_OBJECT_0_def WAIT_IO_COMPLETION_def)
  have 5: "try_block (run_of [wake 7, wake WAIT_OBJECT_0]) svc =
       (Raised (ConnectionExcepton ''Unexpected error GLE = 0''),
        unwound svc
          (armed\<lparr>trace := trace armed @
             [A_WaitForMultipleObjectsEx [Handle 1, Handle 2, Handle 0] 7]\<rparr>))"
    using t6[where it="wake 7", THEN conjunct2, THEN conjunct1, rule_format, OF h5]
    by (simp add: i f wake_def failure_def to_string.simps digit_def)
  have r: "fst (try_block (run_of [wake 7]) svc) = Raised (ConnectionExcepton ''Unexpected error GLE = 0'')"
    "fst (try_block (run_of [wake 7]) (Acceptor ''svc-a'' ok)) = Raised (ConnectionExcepton ''Unexpected error GLE = 0'')"
    by (simp_all add: run_defs failure_def to_string.simps digit_def)
  note t7 = first_error_ends_the_loop[where env="run_of [wake 7]" and a=svc and rest="[wake WAIT_OBJECT_0]",
        THEN conjunct2, THEN conjunct2, THEN conjunct2, THEN conjunct2, THEN conjunct2, THEN conjunct2,
        rule_format, OF r(1)]
  have 6: "LinstenInThread (run_of [wake 7, wake WAIT_OBJECT_0]) svc = LinstenInThread (run_of [wake 7]) svc"
    using t7[THEN conjunct1] by (simp add: i(3))
  have 7: "exception_calls (performed svc (snd (LinstenInThread (run_of [wake 7]) svc))) =
       [Some (ConnectionExcepton ''Unexpected error GLE = 0'')]"
    using t7[THEN conjunct2, THEN conjunct1] f(4) by simp
  note t8 = first_error_ends_the_loop[where env="run_of [wake 7]" and a="Acceptor ''svc-a'' ok",
        THEN conjunct2, THEN conjunct2, THEN conjunct2, THEN conjunct2, THEN conjunct2, THEN conjunct2,
        rule_format, OF r(2)]
  have 8: "LinstenInThread (run_of [wake 7]) (Acceptor ''svc-a'' ok) =
       (Returned, snd (try_block (run_of [wake 7]) (Acceptor ''svc-a'' ok)))"
    using t8[THEN conjunct2, THEN conjunct2, THEN conjunct2] f(5) by blast
  have bb: "try_block (run_of []) svc = (Blocked ?l, armed)" using b by (simp add: i)
  show ?thesis
    apply (intro conjI)
    apply (rule h1)
    apply (rule 1)
    apply (simp only: 2 snd2)
    apply (rule bb)
    apply (rule 3)
    apply (rule 4)
    apply (rule 5)
    apply (rule 6)
    apply (rule 7)
    apply (rule 8)
    done
qed

text \<open>
  C3 (amended). A run first creates the connect event as a manual-reset event that is
  initially signaled; if that succeeds, it next creates the write event as an auto-reset
  event that is initially not signaled.
\<close>

theorem loop_events_created:
  "take 1 (performed a (snd (LinstenInThread env a))) =
     [A_CreateEvent True True (if success (create_conn_event env) then Handle (fresh a) else NULL)]
   \<and> (success (create_conn_event env) \<longrightarrow>
        take 1 (drop 1 (performed a (snd (LinstenInThread env a)))) =
          [A_CreateEvent False False
             (if success (create_write_event env) then Handle (Suc (fresh a)) else NULL)])"
proof -
  obtain r a' where t: "try_block env a = (r, a')" by fastforce
  have "\<exists>xs. trace a' = trace a @ A_CreateEvent True True (if success (create_conn_event env) then Handle (fresh a) else NULL) # xs
     \<and> (success (create_conn_event env) \<longrightarrow> (\<exists>ys. xs = A_CreateEvent False False
             (if success (create_write_event env) then Handle (Suc (fresh a)) else NULL) # ys))"
  proof (cases "success (create_conn_event env) \<and> success (create_write_event env)")
    case False
    then show ?thesis
      using try_block_no_conn_event[of env a] try_block_no_write_event[of env a] t
      by (cases "success (create_conn_event env)") auto
  next
    case True
    let ?x = "connect_and_loop (first_locals a) (first_connect env) (iterations env) (started a)"
    obtain xs where xs: "advanced (started a) xs (snd ?x)"
      using connect_and_loop_advanced by blast
    obtain ys where ys: "advanced (snd ?x) ys (snd (leave_scope (first_locals a) ?x))"
      using leave_scope_advanced[OF refl, of ?x "first_locals a"] by blast
    have "advanced (started a) (xs @ ys) a'"
      using xs(1) ys(1) advanced_trans try_block_events[of env a] True t by (metis snd_conv)
    then show ?thesis
      using True by (auto simp: advanced_def started_def)
  qed
  then obtain xs where "trace a' = trace a @ A_CreateEvent True True (if success (create_conn_event env) then Handle (fresh a) else NULL) # xs"
  "success (create_conn_event env) \<longrightarrow> (\<exists>ys. xs = A_CreateEvent False False
             (if success (create_write_event env) then Handle (Suc (fresh a)) else NULL) # ys)" by blast
  moreover have "trace (snd (LinstenInThread env a)) = trace a' \<or> (\<exists>z. trace (snd (LinstenInThread env a)) = trace a' @ [z])"
    using t by (auto simp: LinstenInThread_def after_try_def emit_def split: loop_exit.splits)
  ultimately show ?thesis
    by (auto simp: performed_def)
qed

text \<open>The theorem at a run in which both events are created.\<close>

theorem loop_events_witness:
  "success (create_conn_event (run_of [])) \<and>
   take 1 (drop 1 (performed svc (snd (LinstenInThread (run_of []) svc)))) = [A_CreateEvent False False (Handle 2)]"
proof -
  have h: "success (create_conn_event (run_of []))" by (simp add: run_of_def ok_def)
  have f: "fresh svc = 1" by (simp add: run_defs)
  show ?thesis using h f loop_events_created[of svc "run_of []"] by (simp add: run_of_def ok_def)
qed

text \<open>
  C3 as stated fails: the first action of a run creates the connect event with
  \<^verbatim>\<open>bManualReset = TRUE\<close>.
\<close>

theorem connect_event_is_manual_reset:
  "performed svc (snd (LinstenInThread (run_of [wake (WAIT_OBJECT_0 + 2)]) svc)) ! 0 = A_CreateEvent True True (Handle 1)"
  by (simp add: run_defs)

text \<open>
  C4 (amended). \<^verbatim>\<open>CreateConnectInstance\<close> throws when the pipe cannot be created and when
  \<^verbatim>\<open>ConnectNamedPipe\<close> reports success; it returns \<open>True\<close> on \<^verbatim>\<open>ERROR_IO_PENDING\<close>; on
  \<^verbatim>\<open>ERROR_PIPE_CONNECTED\<close> it signals the connect event and returns \<open>False\<close> if the
  signal succeeds, and throws if the signal fails; it throws on every other code. The
  connect event is signaled in the \<^verbatim>\<open>ERROR_PIPE_CONNECTED\<close> case only.
\<close>

theorem CreateConnectInstance_outcomes:
  "fst (CreateConnectInstance e a) =
     (if \<not> success (create_pipe e)
      then Inl (failure ''CreateNamedPipe failed GLE = '' (gle (create_pipe e)))
      else if success (connect_pipe e)
      then Inl (failure ''ConnectNamedPipe failed GLE = '' (gle (connect_pipe e)))
      else if gle (connect_pipe e) = ERROR_IO_PENDING then Inr True
      else if gle (connect_pipe e) = ERROR_PIPE_CONNECTED
      then (if success (set_event e) then Inr False
            else Inl (failure ''ConnectNamedPipe failed GLE = '' (gle (set_event e))))
      else Inl (failure ''ConnectNamedPipe failed GLE = '' (gle (connect_pipe e))))
   \<and> (A_SetEvent (hEvent a) (success (set_event e)) \<in> set (performed a (snd (CreateConnectInstance e a)))
        \<longleftrightarrow> success (create_pipe e) \<and> \<not> success (connect_pipe e)
             \<and> gle (connect_pipe e) = ERROR_PIPE_CONNECTED)"
  unfolding cci_post
  by (auto simp add: CreateConnectInstance_def CreateNamedPipe_def ConnectNamedPipe_def
      SetEvent_def emit_def Let_def performed_def ERROR_IO_PENDING_def ERROR_PIPE_CONNECTED_def split: prod.splits)

text \<open>
  C4 as stated fails: the code is \<^verbatim>\<open>ERROR_PIPE_CONNECTED\<close>, \<^verbatim>\<open>SetEvent\<close> fails with error 6,
  and \<^verbatim>\<open>CreateConnectInstance\<close> throws instead of returning \<open>False\<close>.
\<close>

theorem already_connected_signal_fails:
  "gle (connect_pipe \<lparr>create_pipe = ok, connect_pipe = err ERROR_PIPE_CONNECTED, set_event = err 6\<rparr>) = ERROR_PIPE_CONNECTED
   \<and> fst (CreateConnectInstance \<lparr>create_pipe = ok, connect_pipe = err ERROR_PIPE_CONNECTED, set_event = err 6\<rparr> (started svc))
       = Inl (ConnectionExcepton ''ConnectNamedPipe failed GLE = 6'')"
  by (simp add: run_defs failure_def to_string.simps digit_def)

text \<open>
  C8. An iteration whose wait returns \<^verbatim>\<open>WAIT_OBJECT_0 + 1\<close> calls the deferred-work
  callback if it is registered and does nothing else: \<^verbatim>\<open>pedding\<close> is the same, and the
  state differs by the two actions in the trace only, so the endpoint, the connect event
  and the number of objects are unchanged and no pipe is created.
\<close>

theorem deferred_work_changes_nothing:
  assumes "wait_ret (wait it) = WAIT_OBJECT_0 + 1"
  shows "loop_step l it a =
     ((if async_io_callback a
       then (case on_async_io it of Returns \<Rightarrow> Continue (pedding l) | Throws x \<Rightarrow> Throw x)
       else Continue (pedding l)),
      a\<lparr>trace := trace a @ A_WaitForMultipleObjectsEx (events l) (WAIT_OBJECT_0 + 1) #
                  (if async_io_callback a then [A_async_io_callback (on_async_io it)] else [])\<rparr>)"
  using assms
  by (simp add: loop_step_def WaitForMultipleObjectsEx_def call_async_io_callback_def emit_def
      split: cb_result.splits)

text \<open>The theorem at the first iteration of a run with the callback registered.\<close>

theorem deferred_work_witness:
  "wait_ret (wait (wake (WAIT_OBJECT_0 + 1))) = WAIT_OBJECT_0 + 1 \<and>
   loop_step (first_locals svc) (wake (WAIT_OBJECT_0 + 1)) (started svc) =
     (Continue False,
      (started svc)\<lparr>trace := trace (started svc) @
         [A_WaitForMultipleObjectsEx [Handle 1, Handle 2, Handle 0] (WAIT_OBJECT_0 + 1), A_async_io_callback Returns]\<rparr>)"
proof -
  have h: "wait_ret (wait (wake (WAIT_OBJECT_0 + 1))) = WAIT_OBJECT_0 + 1" by (simp add: wake_def)
  have s: "async_io_callback (started svc)" "events (first_locals svc) = [Handle 1, Handle 2, Handle 0]"
    "pedding (first_locals svc) = False" "on_async_io (wake (WAIT_OBJECT_0 + 1)) = Returns"
    by (simp_all add: run_defs started_def first_locals_def)
  show ?thesis using h deferred_work_changes_nothing[OF h, of "first_locals svc" "started svc"] s by simp
qed

text \<open>
  C10. With no new-connection callback registered, an iteration that accepts a client
  (the wait returns \<^verbatim>\<open>WAIT_OBJECT_0\<close> and a pending connect is confirmed) performs the
  wait, the confirmation and then the actions of \<^verbatim>\<open>CreateConnectInstance\<close> at once: it
  closes no handle, \<^verbatim>\<open>next_pipe_\<close> is overwritten by the new endpoint, and the iteration
  ends by a throw exactly when \<^verbatim>\<open>CreateConnectInstance\<close> throws. No run calls the callback.
  The loop handles such a wake-up by this iteration and goes on with the wake-ups that
  follow; a run that waits, meets it and re-arms is waiting again, with the new endpoint.
\<close>

theorem unset_callback_rearms:
  assumes "\<not> new_connection_callback a"
    and "wait_ret (wait it) = WAIT_OBJECT_0"
    and "pedding l \<longrightarrow> success (overlapped it)"
  shows "fst (loop_step l it a) =
           (case fst (CreateConnectInstance (rearm it) a) of Inl x \<Rightarrow> Throw x | Inr p \<Rightarrow> Continue p)
       \<and> performed a (snd (loop_step l it a)) =
           A_WaitForMultipleObjectsEx (events l) WAIT_OBJECT_0 #
           (if pedding l then [A_GetOverlappedResult (next_pipe a) True] else []) @
           performed a (snd (CreateConnectInstance (rearm it) a))
       \<and> next_pipe (snd (loop_step l it a)) =
           (if success (create_pipe (rearm it)) then Handle (fresh a) else INVALID_HANDLE_VALUE)
       \<and> (\<forall>h. A_CloseHandle h \<notin> set (performed a (snd (loop_step l it a))))
       \<and> (\<forall>env p w r. A_new_connection_callback p w r \<notin> set (performed a (snd (LinstenInThread env a))))
       \<and> (\<forall>its. loop l (it # its) a =
             (case fst (CreateConnectInstance (rearm it) a) of
                Inl x \<Rightarrow> (Raised x, snd (loop_step l it a))
              | Inr p \<Rightarrow> loop (l\<lparr>pedding := p\<rparr>) its (snd (loop_step l it a))))
       \<and> (\<forall>env a0 pre p.
             try_block (env\<lparr>iterations := pre\<rparr>) a0 = (Blocked l, a) \<and>
             fst (CreateConnectInstance (rearm it) a) = Inr p \<longrightarrow>
             try_block (env\<lparr>iterations := pre @ [it]\<rparr>) a0 =
               (Blocked (l\<lparr>pedding := p\<rparr>), snd (loop_step l it a)))"
proof -
  have d: "delivered l it a = a\<lparr>trace := trace a @
          A_WaitForMultipleObjectsEx (events l) WAIT_OBJECT_0 #
          (if pedding l then [A_GetOverlappedResult (next_pipe a) True] else [])\<rparr>"
    using assms(1) by (simp add: delivered_def)
  have s: "loop_step l it a =
      (case CreateConnectInstance (rearm it) (delivered l it a) of
             (Inl x, a') \<Rightarrow> (Throw x, a')
           | (Inr p, a') \<Rightarrow> (Continue p, a'))"
    using accept_step[OF assms(2,3), of a] assms(1) by simp
  have f: "fst (CreateConnectInstance (rearm it) (delivered l it a)) = fst (CreateConnectInstance (rearm it) a)"
    by (simp add: cci_result)
  have 1: "fst (loop_step l it a) =
           (case fst (CreateConnectInstance (rearm it) a) of Inl x \<Rightarrow> Throw x | Inr p \<Rightarrow> Continue p)"
    unfolding s f[symmetric] by (simp split: prod.splits sum.splits)
  have sn: "snd (loop_step l it a) = snd (CreateConnectInstance (rearm it) (delivered l it a))"
    unfolding s by (simp split: prod.splits sum.splits)
  have 2: "performed a (snd (loop_step l it a)) =
           A_WaitForMultipleObjectsEx (events l) WAIT_OBJECT_0 #
           (if pedding l then [A_GetOverlappedResult (next_pipe a) True] else []) @
           performed a (snd (CreateConnectInstance (rearm it) a))"
    unfolding sn cci_post by (simp add: d performed_def)
  have 3: "next_pipe (snd (loop_step l it a)) =
           (if success (create_pipe (rearm it)) then Handle (fresh a) else INVALID_HANDLE_VALUE)"
    unfolding sn cci_post by (simp add: d)
  have 4: "A_new_connection_callback p w r \<notin> set (performed a (snd (LinstenInThread env a)))" for env p w r
  proof (cases "success (create_conn_event env) \<and> success (create_write_event env)")
    case True
    then show ?thesis
      using run_shape[of env a] assms(1)
      by (fastforce simp: loop_action_def started_def)
  next
    case False
    then show ?thesis using run_shape_failed[of env a] by fastforce
  qed
  have 5: "A_CloseHandle h \<notin> set (performed a (snd (loop_step l it a)))" for h
    unfolding 2 cci_post by (simp add: performed_def)
  have 6: "loop l (it # its) a =
             (case fst (CreateConnectInstance (rearm it) a) of
                Inl x \<Rightarrow> (Raised x, snd (loop_step l it a))
              | Inr p \<Rightarrow> loop (l\<lparr>pedding := p\<rparr>) its (snd (loop_step l it a)))" for its
  proof (cases "loop_step l it a")
    case (Pair r a1)
    then show ?thesis using 1 by (cases "fst (CreateConnectInstance (rearm it) a)") auto
  qed
  have 7: "try_block (env\<lparr>iterations := pre @ [it]\<rparr>) a0 =
               (Blocked (l\<lparr>pedding := p\<rparr>), snd (loop_step l it a))"
    if "try_block (env\<lparr>iterations := pre\<rparr>) a0 = (Blocked l, a)"
      and "fst (CreateConnectInstance (rearm it) a) = Inr p" for env a0 pre p
  proof -
    have "loop_step l it a = (Continue p, snd (loop_step l it a))"
      using 1 that(2) by (cases "loop_step l it a") simp
    then show ?thesis
      using run_waits_again[where env=env and pre=pre and a=a0 and l=l and it=it and p=p
          and s'="snd (loop_step l it a)"] that(1) by simp
  qed
  show ?thesis using 1 2 3 4 5 6 7 by blast
qed

text \<open>
  The theorem at the first accept of an Acceptor without callbacks: endpoint 3 is
  replaced by endpoint 4, and the run that waited is waiting again.
\<close>

theorem unset_callback_witness:
  "\<not> new_connection_callback plain
   \<and> wait_ret (wait (wake WAIT_OBJECT_0)) = WAIT_OBJECT_0
   \<and> success (overlapped (wake WAIT_OBJECT_0))
   \<and> next_pipe plain = Handle 3
   \<and> fst (loop_step ((first_locals (Acceptor ''svc-a'' ok))\<lparr>pedding := True\<rparr>) (wake WAIT_OBJECT_0) plain) = Continue True
   \<and> next_pipe (snd (loop_step ((first_locals (Acceptor ''svc-a'' ok))\<lparr>pedding := True\<rparr>) (wake WAIT_OBJECT_0) plain)) = Handle 4
   \<and> try_block (run_of []) (Acceptor ''svc-a'' ok) =
        (Blocked ((first_locals (Acceptor ''svc-a'' ok))\<lparr>pedding := True\<rparr>), plain)
   \<and> try_block (run_of [wake WAIT_OBJECT_0]) (Acceptor ''svc-a'' ok) =
        (Blocked ((first_locals (Acceptor ''svc-a'' ok))\<lparr>pedding := True\<rparr>),
         snd (loop_step ((first_locals (Acceptor ''svc-a'' ok))\<lparr>pedding := True\<rparr>) (wake WAIT_OBJECT_0) plain))"
proof -
  let ?l = "(first_locals (Acceptor ''svc-a'' ok))\<lparr>pedding := True\<rparr>"
  have h1: "\<not> new_connection_callback plain" by (simp add: plain_def run_defs started_def)
  have h2: "wait_ret (wait (wake WAIT_OBJECT_0)) = WAIT_OBJECT_0" by (simp add: wake_def)
  have h3: "pedding ?l \<longrightarrow> success (overlapped (wake WAIT_OBJECT_0))"
    by (simp add: wake_def ok_def)
  have f: "fresh plain = 4" "next_pipe plain = Handle 3" by (simp_all add: plain_def run_defs started_def)
  have c: "fst (CreateConnectInstance (rearm (wake WAIT_OBJECT_0)) plain) = Inr True"
    by (simp add: cci_result wake_def connect_pending_def ok_def err_def)
  have s: "success (create_pipe (rearm (wake WAIT_OBJECT_0)))" "success (overlapped (wake WAIT_OBJECT_0))"
    by (simp_all add: wake_def connect_pending_def ok_def)
  have b: "try_block ((run_of [])\<lparr>iterations := []\<rparr>) (Acceptor ''svc-a'' ok) = (Blocked ?l, plain)"
    by (simp add: plain_def run_defs started_def first_locals_def)
  have i: "(run_of [])\<lparr>iterations := []\<rparr> = run_of []"
    "(run_of [])\<lparr>iterations := [wake WAIT_OBJECT_0]\<rparr> = run_of [wake WAIT_OBJECT_0]"
    by (simp_all add: run_of_def)
  note t = unset_callback_rearms[OF h1 h2 h3]
  have 1: "fst (loop_step ?l (wake WAIT_OBJECT_0) plain) = Continue True"
    using t c by simp
  have 2: "next_pipe (snd (loop_step ?l (wake WAIT_OBJECT_0) plain)) = Handle 4"
    using t s f by simp
  have "try_block ((run_of [])\<lparr>iterations := [] @ [wake WAIT_OBJECT_0]\<rparr>) (Acceptor ''svc-a'' ok) =
        (Blocked (?l\<lparr>pedding := True\<rparr>), snd (loop_step ?l (wake WAIT_OBJECT_0) plain))"
    using t b c by blast
  then have 3: "try_block (run_of [wake WAIT_OBJECT_0]) (Acceptor ''svc-a'' ok) =
        (Blocked ?l, snd (loop_step ?l (wake WAIT_OBJECT_0) plain))"
    by (simp add: i)
  show ?thesis using h1 h2 s(2) f(2) 1 2 3 b i(1) by simp
qed


text \<open>
  C9. In one run, every call of the new-connection callback receives the same write
  event: the second object the run creates, which is also the second handle of every
  wait of the loop; the run creates two events, the connect event and this one, and none
  per connection.
\<close>

theorem one_write_event_per_run:
  "\<forall>x\<in>set (performed a (snd (LinstenInThread env a))).
     (case x of
        A_new_connection_callback p w r \<Rightarrow>
          w = Handle (Suc (fresh a)) \<and>
          created_events (performed a (snd (LinstenInThread env a))) =
            [Handle (fresh a), Handle (Suc (fresh a))]
      | A_WaitForMultipleObjectsEx evs ret \<Rightarrow>
          evs = [Handle (fresh a), Handle (Suc (fresh a)), close_event a]
      | _ \<Rightarrow> True)"
proof (cases "success (create_conn_event env) \<and> success (create_write_event env)")
  case True
  obtain xs ys where sh: "performed a (snd (LinstenInThread env a)) =
            [A_CreateEvent True True (Handle (fresh a)),
             A_CreateEvent False False (Handle (Suc (fresh a)))] @ xs @ ys"
     "\<forall>x\<in>set xs. loop_action (first_locals a) (started a) x"
     "\<forall>y\<in>set ys. case y of A_CloseHandle h \<Rightarrow> True | A_exception_callback e r \<Rightarrow> True | _ \<Rightarrow> False"
    using run_shape[of env a] True by blast
  have ce: "created_events (performed a (snd (LinstenInThread env a))) =
            [Handle (fresh a), Handle (Suc (fresh a))]"
    using loop_action_no_event[OF sh(2)] unwinding_no_event[OF sh(3)]
    by (simp add: sh(1)) (simp add: created_events_def)
  show ?thesis
  proof
    fix x assume "x \<in> set (performed a (snd (LinstenInThread env a)))"
    then consider "x = A_CreateEvent True True (Handle (fresh a))"
      | "x = A_CreateEvent False False (Handle (Suc (fresh a)))" | "x \<in> set xs" | "x \<in> set ys"
      using sh(1) by auto
    then show "case x of
        A_new_connection_callback p w r \<Rightarrow>
          w = Handle (Suc (fresh a)) \<and>
          created_events (performed a (snd (LinstenInThread env a))) =
            [Handle (fresh a), Handle (Suc (fresh a))]
      | A_WaitForMultipleObjectsEx evs ret \<Rightarrow>
          evs = [Handle (fresh a), Handle (Suc (fresh a)), close_event a]
      | _ \<Rightarrow> True"
    proof cases
      case 3
      then have "loop_action (first_locals a) (started a) x" using sh(2) by blast
      then show ?thesis
        using ce by (auto simp: loop_action_def first_locals_def started_def split: action.splits)
    next
      case 4
      then show ?thesis using sh(3) by (fastforce split: action.splits)
    qed simp_all
  qed
next
  case False
  then show ?thesis using run_shape_failed[of env a] by (fastforce split: action.splits)
qed

text \<open>The theorem at the first delivery of a run that accepts two clients.\<close>

theorem one_write_event_witness:
  "A_new_connection_callback (Handle 3) (Handle 2) Returns \<in> set (performed svc (snd (LinstenInThread two_accepts svc)))
   \<and> Handle 2 = Handle (Suc (fresh svc))
   \<and> created_events (performed svc (snd (LinstenInThread two_accepts svc))) = [Handle 1, Handle 2]"
proof -
  have m: "A_new_connection_callback (Handle 3) (Handle 2) Returns \<in> set (performed svc (snd (LinstenInThread two_accepts svc)))"
    by (simp add: two_accepts_def run_defs)
  have f: "fresh svc = 1" by (simp add: run_defs)
  show ?thesis
    using m f bspec[OF one_write_event_per_run[of svc two_accepts] m] by simp
qed







text \<open>
  C2 (amended). When the life of an Acceptor is complete (the destructor has returned):
  no object was closed twice; every event the Acceptor created (the stop event and the two
  events of each run of the loop) was closed exactly once; the endpoint in \<^verbatim>\<open>next_pipe_\<close>
  at destruction was closed exactly once, and the last two handles closed are
  \<^verbatim>\<open>next_pipe_\<close> and \<^verbatim>\<open>close_event_\<close>, by the destructor; an endpoint that was handed to
  the new-connection callback, which returned, was not closed by the Acceptor.
\<close>

theorem handles_released:
  assumes "lifetime endpoint r cs d = Some a"
  shows "(\<forall>n. count_list (closed (trace a)) (Handle n) \<le> 1)
       \<and> (\<forall>m i n. A_CreateEvent m i (Handle n) \<in> set (trace a)
              \<longrightarrow> count_list (closed (trace a)) (Handle n) = 1)
       \<and> (\<forall>n w. A_new_connection_callback (Handle n) w Returns \<in> set (trace a)
              \<longrightarrow> Handle n \<notin> set (closed (trace a)))
       \<and> (\<exists>hs. closed (trace a) = hs @ [next_pipe a, close_event a])
       \<and> (\<forall>n. next_pipe a = Handle n \<longrightarrow> count_list (closed (trace a)) (Handle n) = 1)"
proof -
  obtain b where b: "calls cs (Acceptor endpoint r) = Some b" and db: "destroy d b = Some a"
    using assms by (auto simp: lifetime_def split: option.splits)
  obtain s where s: "Stop d b = Some s"
    and a: "a = CloseHandle (close_event s) (CloseHandle (next_pipe s) s)"
    using db by (auto simp: destroy_def split: option.splits)
  have "well_owned b" using well_owned_calls[OF well_owned_Acceptor b] .
  then have o: "owned {} s" using well_owned_Stop s by blast
  note d = o[unfolded owned_def]
  let ?C = "closed (trace s)"
  have tr: "trace a = trace s @ [A_CloseHandle (next_pipe s), A_CloseHandle (close_event s)]"
    and np: "next_pipe a = next_pipe s" and ce: "close_event a = close_event s"
    unfolding a by (simp_all add: CloseHandle_def emit_def)
  have cl: "closed (trace a) = ?C @ [next_pipe s, close_event s]"
    and ev: "created_events (trace a) = created_events (trace s)"
    and ho: "handed_over (trace a) = handed_over (trace s)"
    unfolding tr by (simp_all add: closed_def created_events_def handed_over_def)
  have dist: "distinct ?C" and sub: "set ?C \<subseteq> set (created_events (trace s))"
    and cen: "close_event s \<notin> set ?C" using d by blast+
  have npn: "next_pipe s = Handle n \<Longrightarrow> Handle n \<notin> set (created_events (trace s))" for n
    using d by metis
  have npc: "next_pipe s = Handle n \<Longrightarrow> Handle n \<notin> set ?C" for n
    using npn sub by blast
  have npe: "next_pipe s = Handle n \<Longrightarrow> close_event s \<noteq> Handle n" for n
    using npn d by metis
  have cnt: "count_list ?C h \<le> 1" for h
    using dist by (rule distinct_count_le_1)
  have 1: "count_list (closed (trace a)) (Handle n) \<le> 1" for n
  proof -
    consider "next_pipe s = Handle n" | "next_pipe s \<noteq> Handle n" "close_event s = Handle n"
      | "next_pipe s \<noteq> Handle n" "close_event s \<noteq> Handle n" by blast
    then show ?thesis
    proof cases
      case 1
      then have "count_list ?C (Handle n) = 0" "close_event s \<noteq> Handle n"
        using npc npe by (simp_all add: count_list_0_iff)
      then show ?thesis unfolding cl using 1 by simp
    next
      case 2
      then have "count_list ?C (Handle n) = 0" using cen by (simp add: count_list_0_iff)
      then show ?thesis unfolding cl using 2 by simp
    next
      case 3
      then show ?thesis unfolding cl using cnt[of "Handle n"] by simp
    qed
  qed
  have 2: "count_list (closed (trace a)) (Handle n) = 1"
    if "A_CreateEvent m i (Handle n) \<in> set (trace a)" for m i n
  proof -
    have "Handle n \<in> set (created_events (trace s))"
      using created_event_mem[OF that] ev by simp
    then have "Handle n \<in> set ?C \<or> Handle n = close_event s" using d by blast
    then have "Handle n \<in> set (closed (trace a))" unfolding cl by auto
    then have "count_list (closed (trace a)) (Handle n) \<noteq> 0" by (simp add: count_list_0_iff)
    then show ?thesis using 1[of n] by simp
  qed
  have 3: "Handle n \<notin> set (closed (trace a))"
    if "A_new_connection_callback (Handle n) w Returns \<in> set (trace a)" for n w
  proof -
    have "Handle n \<in> set (handed_over (trace s))"
      using handed_over_mem[OF that] ho by simp
    then have p: "Handle n \<in> set (created_pipes (trace s))" "Handle n \<noteq> next_pipe s"
      using d by blast+
    then have e: "Handle n \<notin> set (created_events (trace s))" using d by blast
    then have "Handle n \<notin> set ?C" using sub by blast
    moreover have "Handle n \<noteq> close_event s" using e d by metis
    ultimately show ?thesis unfolding cl using p(2) by simp
  qed
  have 4: "\<exists>hs. closed (trace a) = hs @ [next_pipe a, close_event a]"
    unfolding cl np ce by blast
  have 5: "count_list (closed (trace a)) (Handle n) = 1" if "next_pipe a = Handle n" for n
  proof -
    have "Handle n \<in> set (closed (trace a))" unfolding cl using that np by simp
    then have "count_list (closed (trace a)) (Handle n) \<noteq> 0" by (simp add: count_list_0_iff)
    then show ?thesis using 1[of n] by simp
  qed
  show ?thesis using 1 2 3 4 5 by blast
qed


text \<open>
  The theorem at a life that accepts one client with the callback registered: the connect
  event 1 is closed once, endpoint 3 was handed over and is not closed, endpoint 4 is
  closed by the destructor.
\<close>

theorem handles_released_witness:
  "lifetime ''svc-a'' ok (Call_SetNewConnectionCallback True # one_client) stop_now = Some served
   \<and> A_CreateEvent True True (Handle 1) \<in> set (trace served)
   \<and> count_list (closed (trace served)) (Handle 1) = 1
   \<and> A_new_connection_callback (Handle 3) (Handle 2) Returns \<in> set (trace served)
   \<and> Handle 3 \<notin> set (closed (trace served))
   \<and> next_pipe served = Handle 4
   \<and> count_list (closed (trace served)) (Handle 4) = 1"
proof -
  have h: "lifetime ''svc-a'' ok (Call_SetNewConnectionCallback True # one_client) stop_now = Some served"
    by (simp add: life_defs stop_defs run_defs)
  have m: "A_CreateEvent True True (Handle 1) \<in> set (trace served)"
    "A_new_connection_callback (Handle 3) (Handle 2) Returns \<in> set (trace served)"
    "next_pipe served = Handle 4"
    by (simp_all add: life_defs stop_defs run_defs)
  note t = handles_released[OF h]
  have 1: "count_list (closed (trace served)) (Handle 1) = 1"
    using t m(1) by blast
  have 2: "Handle 3 \<notin> set (closed (trace served))"
    using t m(2) by blast
  have 3: "count_list (closed (trace served)) (Handle 4) = 1"
    using t m(3) by blast
  show ?thesis using h m 1 2 3 by blast
qed

text \<open>
  C2 as stated fails: endpoint 3 is created and accepted, the loop re-arms with endpoint 4,
  and in the whole life of the Acceptor no \<^verbatim>\<open>CloseHandle\<close> is for endpoint 3, whether there
  is no callback (nobody has the handle) or the callback received it.
\<close>

theorem accepted_endpoint_not_closed:
  "lifetime ''svc-a'' ok one_client stop_now = Some unserved
   \<and> A_CreateNamedPipe (c_str (pipe_name unserved)) (Handle 3) \<in> set (trace unserved)
   \<and> closed (trace unserved) = [Handle 2, Handle 1, Handle 4, Handle 0]
   \<and> lifetime ''svc-a'' ok (Call_SetNewConnectionCallback True # one_client) stop_now = Some served
   \<and> A_CreateNamedPipe (c_str (pipe_name served)) (Handle 3) \<in> set (trace served)
   \<and> closed (trace served) = [Handle 2, Handle 1, Handle 4, Handle 0]"
  by (simp add: life_defs stop_defs run_defs)

end
